theory Spec2Isabelle
  imports Main "HOL-Library.AList"
begin

section \<open>The build driver of ekam (Driver.h, Driver.cpp)\<close>

text \<open>
  A shallow embedding of \<^verbatim>\<open>Driver\<close> and \<^verbatim>\<open>Driver::ActionDriver\<close>. Objects that the
  C++ code reaches through raw pointers (\<^verbatim>\<open>ActionDriver*\<close>) live in an explicit store,
  the collections of the driver hold their addresses, and every member function takes the
  state of the whole driver and returns the new one. An \<^verbatim>\<open>OwnedPtrVector\<close> is a list
  whose back is the last element (\<^verbatim>\<open>adoptBack\<close> appends, \<^verbatim>\<open>releaseBack\<close> takes
  \<open>last\<close>). The hash maps are lists of pairs in the order of insertion; the order in which the
  C++ containers iterate is left open by their specification, and no statement below depends
  on it.
\<close>

subsection \<open>Collaborators\<close>

type_synonym EntityId = nat
type_synonym ActionDriverPtr = nat

text \<open>
  Modelled from the spec: \<^verbatim>\<open>File.h\<close> is not among the sources. A handle carries the
  answers its methods give: its path, whether it is a directory and the handles of its
  children (a finite tree). \<^verbatim>\<open>clone\<close> yields an equal handle and is the identity here.
  What lies on the disk is outside the driver: \<^verbatim>\<open>createDirectory\<close> has no effect on
  the state modelled here.
\<close>

datatype File = File (path: "string list") (isDirectory: bool) (list_dir: "File list")

definition basename :: "File \<Rightarrow> string" where
  "basename f = (if path f = [] then [] else last (path f))"

definition displayName :: "File \<Rightarrow> string" where
  "displayName f = concat (map (\<lambda>s. CHR ''/'' # s) (path f))"

definition parent :: "File \<Rightarrow> File" where
  "parent f = File (butlast (path f)) True []"

definition relative :: "File \<Rightarrow> string \<Rightarrow> File" where
  "relative f b =
     (case find (\<lambda>c. basename c = b) (list_dir f) of
        Some c \<Rightarrow> c
      | None \<Rightarrow> File (path f @ [b]) False [])"

text \<open>
  Modelled from the spec: \<^verbatim>\<open>Action.h\<close> is not among the sources. An action is opaque but
  for its verb; what it does once started reaches the driver as calls of the build context.
  A factory answers \<^verbatim>\<open>tryMakeAction(file)\<close>, \<^verbatim>\<open>tryMakeAction(id, file)\<close> and
  \<^verbatim>\<open>enumerateTriggerEntities\<close>.
\<close>

datatype Action = Action (getVerb: string)

record ActionFactory =
  tryMakeAction :: "File \<Rightarrow> Action option"
  tryMakeAction_entity :: "EntityId \<Rightarrow> File \<Rightarrow> Action option"
  enumerateTriggerEntities :: "EntityId list"

text \<open>
  Modelled from the spec: \<^verbatim>\<open>Dashboard.h\<close> is not among the sources. A task keeps the
  state last set and the output added to it. The names of the states are those
  \<^verbatim>\<open>Driver.cpp\<close> uses.
\<close>

datatype TaskState =
  Dashboard_PENDING | Dashboard_RUNNING | Dashboard_BLOCKED
  | Dashboard_SUCCESS | Dashboard_PASSED | Dashboard_FAILED

record Task =
  taskVerb :: string
  taskName :: string
  taskState :: TaskState
  taskOutput :: "string list"

definition beginTask :: "string \<Rightarrow> string \<Rightarrow> Task" where
  "beginTask v n = \<lparr>taskVerb = v, taskName = n, taskState = Dashboard_PENDING, taskOutput = []\<rparr>"

definition setState :: "TaskState \<Rightarrow> Task \<Rightarrow> Task" where
  "setState s t = t\<lparr>taskState := s\<rparr>"

definition addOutput :: "string \<Rightarrow> Task \<Rightarrow> Task" where
  "addOutput text t = t\<lparr>taskOutput := taskOutput t @ [text]\<rparr>"

subsection \<open>The state\<close>

datatype State = PENDING | RUNNING | SUCCEEDED | PASSED | FAILED

record Provision =
  pfile :: File
  entities :: "EntityId list"

record ActionDriver =
  action :: Action
  tmpdir :: File
  dashboardTask :: Task
  state :: State
  missingDependencies :: "(EntityId \<times> string) list"
  outputs :: "File list"
  provisions :: "Provision list"

text \<open>
  Modelled from the spec: \<^verbatim>\<open>EventManager\<close> and \<^verbatim>\<open>EventGroup\<close> are not among the
  sources. The event manager is the list of the callbacks posted and not yet run. A
  \<^verbatim>\<open>StartCallback\<close> is posted through the event group of its driver, and
  \<^verbatim>\<open>cancelAll\<close> of that group drops it; a \<^verbatim>\<open>DoneCallback\<close> is posted on the event
  manager itself.
\<close>

datatype Callback = StartCallback ActionDriverPtr | DoneCallback ActionDriverPtr

text \<open>
  The log of what a run does to its surroundings, in the order in which it happens:
  \<open>Unblock id w\<close> when \<open>id\<close> is erased from the missing dependencies of the waiter \<open>w\<close>,
  \<open>Trigger id f\<close> when a factory registered for \<open>id\<close> is offered \<open>(id, f)\<close>,
  \<open>Scan src tmp\<close> when \<^verbatim>\<open>scanForActions\<close> is entered, \<open>CancelAll p\<close> when the event
  group of \<open>p\<close> is cancelled, and \<open>Start p a\<close> when \<^verbatim>\<open>start()\<close> is entered on the
  driver at \<open>p\<close>, whose fields at that moment are \<open>a\<close>.
\<close>

datatype Observation =
  Unblock EntityId ActionDriverPtr
  | Trigger EntityId File
  | Scan File File
  | CancelAll ActionDriverPtr
  | Start ActionDriverPtr ActionDriver

record Driver =
  src :: File
  tmp :: File
  maxConcurrentActions :: int
  actionFactories :: "(string \<times> ActionFactory) list"
  triggers :: "(EntityId \<times> ActionFactory) list"
  entityMap :: "EntityId \<rightharpoonup> File"
  filePtrs :: "File list"
  activeActions :: "ActionDriverPtr list"
  pendingActions :: "ActionDriverPtr list"
  blockedActions :: "(EntityId \<times> ActionDriverPtr) list"
  blockedActionPtrs :: "ActionDriverPtr list"
  heap :: "ActionDriverPtr \<rightharpoonup> ActionDriver"
  nextPtr :: ActionDriverPtr
  eventQueue :: "Callback list"
  trace :: "Observation list"

datatype error = runtime_error string

subsection \<open>ActionDriver\<close>

text \<open>The constructor: \<^verbatim>\<open>state(PENDING)\<close>, the containers empty.\<close>

definition ActionDriver_ctor :: "Action \<Rightarrow> File \<Rightarrow> Task \<Rightarrow> ActionDriver" where
  "ActionDriver_ctor actionToAdopt tmploc taskToAdopt =
     \<lparr>action = actionToAdopt, tmpdir = parent tmploc, dashboardTask = taskToAdopt,
      state = PENDING, missingDependencies = [], outputs = [], provisions = []\<rparr>"

definition cancelAll :: "ActionDriverPtr \<Rightarrow> Driver \<Rightarrow> Driver" where
  "cancelAll this d =
     d\<lparr>eventQueue := filter (\<lambda>c. c \<noteq> StartCallback this) (eventQueue d),
       trace := trace d @ [CancelAll this]\<rparr>"

text \<open>The destructor \<^verbatim>\<open>~ActionDriver\<close>, run when the owning pointer goes out of scope.\<close>

definition ActionDriver_dtor :: "ActionDriverPtr \<Rightarrow> Driver \<Rightarrow> Driver" where
  "ActionDriver_dtor this d = (let d1 = cancelAll this d in d1\<lparr>heap := (heap d1)(this := None)\<rparr>)"

text \<open>
  \<^verbatim>\<open>start()\<close> on the object \<open>a\<close> at address \<open>this\<close>. A state other than PENDING is only
  reported (\<^verbatim>\<open>DEBUG_ERROR\<close>). The calls into the dashboard and the event group are taken
  not to throw.
\<close>

definition ActionDriver_start :: "ActionDriverPtr \<Rightarrow> ActionDriver \<Rightarrow> Driver \<Rightarrow> Driver" where
  "ActionDriver_start this a d =
     d\<lparr>heap := (heap d)(this \<mapsto>
          a\<lparr>state := RUNNING, dashboardTask := setState Dashboard_RUNNING (dashboardTask a)\<rparr>),
       eventQueue := eventQueue d @ [StartCallback this],
       trace := trace d @ [Start this a]\<rparr>"

definition ensureRunning :: "ActionDriver \<Rightarrow> error + unit" where
  "ensureRunning a =
     (if state a \<noteq> RUNNING then Inl (runtime_error ''Action is not running.'') else Inr ())"

definition findOptionalProvider ::
  "ActionDriverPtr \<Rightarrow> ActionDriver \<Rightarrow> EntityId \<Rightarrow> Driver \<Rightarrow> error + (File option \<times> Driver)" where
  "findOptionalProvider this a eid d =
     (case ensureRunning a of
        Inl e \<Rightarrow> Inl e
      | Inr _ \<Rightarrow> Inr (entityMap d eid, d))"

definition findProvider ::
  "ActionDriverPtr \<Rightarrow> ActionDriver \<Rightarrow> EntityId \<Rightarrow> string \<Rightarrow> Driver \<Rightarrow> error + (File option \<times> Driver)" where
  "findProvider this a eid title d =
     (case ensureRunning a of
        Inl e \<Rightarrow> Inl e
      | Inr _ \<Rightarrow>
         (case findOptionalProvider this a eid d of
            Inl e \<Rightarrow> Inl e
          | Inr (result, d1) \<Rightarrow>
              if result = None
              then Inr (result, d1\<lparr>heap := (heap d1)(this \<mapsto>
                     a\<lparr>missingDependencies := AList.update eid title (missingDependencies a)\<rparr>)\<rparr>)
              else Inr (result, d1)))"

definition provide ::
  "ActionDriverPtr \<Rightarrow> ActionDriver \<Rightarrow> File \<Rightarrow> EntityId list \<Rightarrow> Driver \<Rightarrow> error + Driver" where
  "provide this a f ents d =
     (case ensureRunning a of
        Inl e \<Rightarrow> Inl e
      | Inr _ \<Rightarrow> Inr (d\<lparr>heap := (heap d)(this \<mapsto>
                   a\<lparr>provisions := provisions a @ [\<lparr>pfile = f, entities = ents\<rparr>]\<rparr>)\<rparr>))"

definition log :: "ActionDriverPtr \<Rightarrow> ActionDriver \<Rightarrow> string \<Rightarrow> Driver \<Rightarrow> error + Driver" where
  "log this a text d =
     (case ensureRunning a of
        Inl e \<Rightarrow> Inl e
      | Inr _ \<Rightarrow> Inr (d\<lparr>heap := (heap d)(this \<mapsto>
                   a\<lparr>dashboardTask := addOutput text (dashboardTask a)\<rparr>)\<rparr>))"

definition newOutput ::
  "ActionDriverPtr \<Rightarrow> ActionDriver \<Rightarrow> string \<Rightarrow> Driver \<Rightarrow> error + (File \<times> Driver)" where
  "newOutput this a b d =
     (case ensureRunning a of
        Inl e \<Rightarrow> Inl e
      | Inr _ \<Rightarrow>
          (let f = relative (tmpdir a) b
           in Inr (f, d\<lparr>heap := (heap d)(this \<mapsto> a\<lparr>outputs := outputs a @ [f]\<rparr>)\<rparr>)))"

definition queueDoneCallback :: "ActionDriverPtr \<Rightarrow> Driver \<Rightarrow> Driver" where
  "queueDoneCallback this d = d\<lparr>eventQueue := eventQueue d @ [DoneCallback this]\<rparr>"

definition success :: "ActionDriverPtr \<Rightarrow> ActionDriver \<Rightarrow> Driver \<Rightarrow> error + Driver" where
  "success this a d =
     (case ensureRunning a of
        Inl e \<Rightarrow> Inl e
      | Inr _ \<Rightarrow>
          if missingDependencies a \<noteq> []
          then Inl (runtime_error ''Action reported success despite missing dependencies.'')
          else Inr (queueDoneCallback this (d\<lparr>heap := (heap d)(this \<mapsto> a\<lparr>state := SUCCEEDED\<rparr>)\<rparr>)))"

definition passed :: "ActionDriverPtr \<Rightarrow> ActionDriver \<Rightarrow> Driver \<Rightarrow> error + Driver" where
  "passed this a d =
     (case ensureRunning a of
        Inl e \<Rightarrow> Inl e
      | Inr _ \<Rightarrow>
          if missingDependencies a \<noteq> []
          then Inl (runtime_error ''Action reported success despite missing dependencies.'')
          else Inr (queueDoneCallback this (d\<lparr>heap := (heap d)(this \<mapsto> a\<lparr>state := PASSED\<rparr>)\<rparr>)))"

definition failed :: "ActionDriverPtr \<Rightarrow> ActionDriver \<Rightarrow> Driver \<Rightarrow> error + Driver" where
  "failed this a d =
     (case ensureRunning a of
        Inl e \<Rightarrow> Inl e
      | Inr _ \<Rightarrow> Inr (queueDoneCallback this (d\<lparr>heap := (heap d)(this \<mapsto> a\<lparr>state := FAILED\<rparr>)\<rparr>)))"

text \<open>
  \<^verbatim>\<open>threwException(e)\<close> with \<open>what\<close> the text of \<^verbatim>\<open>e.what()\<close>. \<^verbatim>\<open>failed()\<close> is called
  in state RUNNING only, where it does not throw.
\<close>

definition threwException :: "ActionDriverPtr \<Rightarrow> ActionDriver \<Rightarrow> string \<Rightarrow> Driver \<Rightarrow> Driver" where
  "threwException this a what d =
     (let a1 = a\<lparr>dashboardTask :=
                  addOutput (''uncaught exception: '' @ what @ [CHR 0x0A]) (dashboardTask a)\<rparr>;
          d1 = d\<lparr>heap := (heap d)(this \<mapsto> a1)\<rparr>
      in if state a1 = RUNNING
         then (case failed this a1 d1 of Inl e \<Rightarrow> d1 | Inr d2 \<Rightarrow> d2)
         else d1)"

definition threwUnknownException :: "ActionDriverPtr \<Rightarrow> ActionDriver \<Rightarrow> Driver \<Rightarrow> Driver" where
  "threwUnknownException this a d =
     (let a1 = a\<lparr>dashboardTask :=
                  addOutput (''uncaught exception of unknown type'' @ [CHR 0x0A]) (dashboardTask a)\<rparr>;
          d1 = d\<lparr>heap := (heap d)(this \<mapsto> a1)\<rparr>
      in if state a1 = RUNNING
         then (case failed this a1 d1 of Inl e \<Rightarrow> d1 | Inr d2 \<Rightarrow> d2)
         else d1)"

subsection \<open>Driver: queueing and scanning\<close>

definition Driver_ctor :: "File \<Rightarrow> File \<Rightarrow> int \<Rightarrow> Driver" where
  "Driver_ctor s t m =
     \<lparr>src = s, tmp = t, maxConcurrentActions = m, actionFactories = [], triggers = [],
      entityMap = Map.empty, filePtrs = [], activeActions = [], pendingActions = [],
      blockedActions = [], blockedActionPtrs = [], heap = Map.empty, nextPtr = 0,
      eventQueue = [], trace = []\<rparr>"

text \<open>
  \<^verbatim>\<open>queueNewAction\<close>. The new driver is allocated at an address not in use, \<open>nextPtr\<close>.
\<close>

definition queueNewAction :: "Action \<Rightarrow> File \<Rightarrow> File \<Rightarrow> Driver \<Rightarrow> Driver" where
  "queueNewAction actionToAdopt f tmpLocation d =
     (let task = beginTask (getVerb actionToAdopt) (displayName f);
          actionDriver = nextPtr d
      in d\<lparr>heap := (heap d)(actionDriver \<mapsto> ActionDriver_ctor actionToAdopt tmpLocation task),
           nextPtr := Suc actionDriver,
           pendingActions := pendingActions d @ [actionDriver]\<rparr>)"

text \<open>The loop over \<^verbatim>\<open>actionFactories\<close> in \<^verbatim>\<open>scanForActions\<close>, for one file.\<close>

fun tryFactories :: "ActionFactory list \<Rightarrow> File \<Rightarrow> File \<Rightarrow> Driver \<Rightarrow> Driver" where
  "tryFactories [] srcFile tmpLocation d = d"
| "tryFactories (factory # fs) srcFile tmpLocation d =
     (case tryMakeAction factory srcFile of
        Some act \<Rightarrow> tryFactories fs srcFile tmpLocation (queueNewAction act srcFile tmpLocation d)
      | None \<Rightarrow> tryFactories fs srcFile tmpLocation d)"

text \<open>The \<^verbatim>\<open>while (!fileQueue.empty())\<close> loop of \<^verbatim>\<open>scanForActions\<close>.\<close>

function scanLoop :: "(File \<times> File) list \<Rightarrow> Driver \<Rightarrow> Driver" where
  "scanLoop fileQueue d =
     (if fileQueue = [] then d
      else
        (let current = last fileQueue;
             srcFile = fst current;
             tmpLocation = snd current
         in if isDirectory srcFile
            then scanLoop (butlast fileQueue
                     @ map (\<lambda>c. (c, relative tmpLocation (basename c))) (list_dir srcFile)) d
            else scanLoop (butlast fileQueue)
                   (tryFactories (map snd (actionFactories d)) srcFile tmpLocation d)))"
  by pat_completeness auto

termination scanLoop
proof (relation "measure (\<lambda>(q, d). sum_list (map (\<lambda>e. size (fst e)) q))", goal_cases)
  case 1
  show ?case by simp
next
  case (2 fileQueue d current srcFile tmpLocation)
  have le: "sum_list (map size cs) \<le> size_list size cs" for cs :: "File list"
    by (induction cs) auto
  have "sum_list (map size (list_dir f)) < size f" for f
    by (cases f) (simp add: le_imp_less_Suc le)
  from this [of "fst (last fileQueue)"]
  have less: "sum_list (map size (list_dir (fst (last fileQueue)))) < size (fst (last fileQueue))" .
  have split: "q \<noteq> [] \<Longrightarrow>
      sum_list (map g q) = sum_list (map g (butlast q)) + g (last q)"
    for q :: "(File \<times> File) list" and g :: "File \<times> File \<Rightarrow> nat"
    by (induction q) auto
  from 2 less show ?case
    by (simp add: split [of fileQueue] comp_def)
next
  case (3 fileQueue d current srcFile tmpLocation)
  have pos: "0 < size f" for f :: File
    by (cases f) simp
  have split: "q \<noteq> [] \<Longrightarrow>
      sum_list (map g q) = sum_list (map g (butlast q)) + g (last q)"
    for q :: "(File \<times> File) list" and g :: "File \<times> File \<Rightarrow> nat"
    by (induction q) auto
  from 3 pos [of "fst (last fileQueue)"] show ?case
    by (simp add: split [of fileQueue])
qed

declare scanLoop.simps [simp del]

definition scanForActions :: "File \<Rightarrow> File \<Rightarrow> Driver \<Rightarrow> Driver" where
  "scanForActions s t d = scanLoop [(s, t)] (d\<lparr>trace := trace d @ [Scan s t]\<rparr>)"

text \<open>
  \<^verbatim>\<open>addActionFactory\<close>: the factory is stored under its name, and one entry of
  \<^verbatim>\<open>triggers\<close> is inserted for each entity the factory enumerates.
\<close>

definition addActionFactory :: "string \<Rightarrow> ActionFactory \<Rightarrow> Driver \<Rightarrow> Driver" where
  "addActionFactory name factory d =
     d\<lparr>actionFactories := AList.update name factory (actionFactories d),
       triggers := triggers d @ map (\<lambda>e. (e, factory)) (enumerateTriggerEntities factory)\<rparr>"

subsection \<open>Driver: the scheduler\<close>

text \<open>
  \<^verbatim>\<open>startSomeActions\<close>. \<^verbatim>\<open>activeActions.size()\<close> is compared with the \<^verbatim>\<open>int\<close>
  \<^verbatim>\<open>maxConcurrentActions\<close>. The \<^verbatim>\<open>catch\<close> clauses are for what \<^verbatim>\<open>start()\<close> lets
  through from the dashboard and the event group, which are taken not to throw. The pointer
  released from \<^verbatim>\<open>pendingActions\<close> owns a live driver; were it dangling, the model would
  leave the store as it is.
\<close>

function startSomeActions :: "Driver \<Rightarrow> Driver" where
  "startSomeActions d =
     (if int (length (activeActions d)) < maxConcurrentActions d \<and> pendingActions d \<noteq> []
      then
        (let ptr = last (pendingActions d);
             d1 = d\<lparr>pendingActions := butlast (pendingActions d),
                    activeActions := activeActions d @ [ptr]\<rparr>
         in case heap d1 ptr of
              None \<Rightarrow> startSomeActions d1
            | Some a \<Rightarrow> startSomeActions (ActionDriver_start ptr a d1))
      else d)"
  by pat_completeness auto

termination startSomeActions
  by (relation "measure (\<lambda>d. length (pendingActions d))")
     (auto simp: ActionDriver_start_def)

declare startSomeActions.simps [simp del]

definition Driver_start :: "Driver \<Rightarrow> Driver" where
  "Driver_start d = startSomeActions (scanForActions (src d) (tmp d) d)"

text \<open>
  The destructor \<^verbatim>\<open>~Driver\<close>: the loop over \<^verbatim>\<open>blockedActionPtrs\<close> that errors out all
  blocked tasks.
\<close>

fun errorOutBlocked :: "ActionDriverPtr list \<Rightarrow> Driver \<Rightarrow> Driver" where
  "errorOutBlocked [] d = d"
| "errorOutBlocked (p # ps) d =
     (case heap d p of
        None \<Rightarrow> errorOutBlocked ps d
      | Some a \<Rightarrow> errorOutBlocked ps
          (d\<lparr>heap := (heap d)(p \<mapsto>
               a\<lparr>dashboardTask := setState Dashboard_FAILED (dashboardTask a)\<rparr>)\<rparr>))"

definition Driver_dtor :: "Driver \<Rightarrow> Driver" where
  "Driver_dtor d = errorOutBlocked (blockedActionPtrs d) d"

subsection \<open>ActionDriver::returned\<close>

text \<open>
  The loop over the bucket of \<^verbatim>\<open>blockedActions\<close> for one entity (lines 303 to 315): the
  entity is erased from the missing dependencies of each waiter, and a waiter left with none
  is released from \<^verbatim>\<open>blockedActionPtrs\<close> and adopted at the back of
  \<^verbatim>\<open>pendingActions\<close>. A waiter that \<^verbatim>\<open>blockedActionPtrs\<close> does not hold is only
  reported (\<^verbatim>\<open>DEBUG_ERROR\<close>).
\<close>

fun unblockLoop :: "EntityId \<Rightarrow> ActionDriverPtr list \<Rightarrow> Driver \<Rightarrow> Driver" where
  "unblockLoop eid [] d = d"
| "unblockLoop eid (w # ws) d =
     (case heap d w of
        None \<Rightarrow> unblockLoop eid ws d
      | Some b \<Rightarrow>
          (let b1 = b\<lparr>missingDependencies := AList.delete eid (missingDependencies b)\<rparr>;
               d1 = d\<lparr>heap := (heap d)(w \<mapsto> b1), trace := trace d @ [Unblock eid w]\<rparr>
           in if missingDependencies b1 = []
              then (if w \<in> set (blockedActionPtrs d1)
                    then unblockLoop eid ws
                           (d1\<lparr>blockedActionPtrs := removeAll w (blockedActionPtrs d1),
                               pendingActions := pendingActions d1 @ [w]\<rparr>)
                    else unblockLoop eid ws d1)
              else unblockLoop eid ws d1))"

text \<open>Lines 300 to 316: the bucket of the entity is walked and then erased as a whole.\<close>

definition unblockBlockedActions :: "EntityId \<Rightarrow> Driver \<Rightarrow> Driver" where
  "unblockBlockedActions eid d =
     (let range = map snd (filter (\<lambda>e. fst e = eid) (blockedActions d));
          d1 = unblockLoop eid range d
      in d1\<lparr>blockedActions := filter (\<lambda>e. fst e \<noteq> eid) (blockedActions d1)\<rparr>)"

text \<open>Lines 318 to 327: every factory registered for the entity is offered it.\<close>

fun fireLoop :: "EntityId \<Rightarrow> File \<Rightarrow> ActionFactory list \<Rightarrow> Driver \<Rightarrow> Driver" where
  "fireLoop eid f [] d = d"
| "fireLoop eid f (factory # fs) d =
     (let d1 = d\<lparr>trace := trace d @ [Trigger eid f]\<rparr>
      in case tryMakeAction_entity factory eid f of
           Some triggeredAction \<Rightarrow> fireLoop eid f fs (queueNewAction triggeredAction f f d1)
         | None \<Rightarrow> fireLoop eid f fs d1)"

definition fireTriggers :: "EntityId \<Rightarrow> File \<Rightarrow> Driver \<Rightarrow> Driver" where
  "fireTriggers eid f d = fireLoop eid f (map snd (filter (\<lambda>e. fst e = eid) (triggers d))) d"

text \<open>The body of the loop over the entities of one provision (lines 298 to 327).\<close>

definition registerEntity :: "File \<Rightarrow> EntityId \<Rightarrow> Driver \<Rightarrow> Driver" where
  "registerEntity f eid d =
     fireTriggers eid f (unblockBlockedActions eid (d\<lparr>entityMap := (entityMap d)(eid \<mapsto> f)\<rparr>))"

fun registerEntities :: "File \<Rightarrow> EntityId list \<Rightarrow> Driver \<Rightarrow> Driver" where
  "registerEntities f [] d = d"
| "registerEntities f (eid # es) d = registerEntities f es (registerEntity f eid d)"

text \<open>The loop over the provisions (lines 292 to 330).\<close>

fun registerProviders :: "Provision list \<Rightarrow> Driver \<Rightarrow> Driver" where
  "registerProviders [] d = d"
| "registerProviders (p # ps) d =
     registerProviders ps
       (registerEntities (pfile p) (entities p) (d\<lparr>filePtrs := filePtrs d @ [pfile p]\<rparr>))"

text \<open>The loop over the outputs (lines 333 to 335).\<close>

fun scanOutputs :: "File list \<Rightarrow> Driver \<Rightarrow> Driver" where
  "scanOutputs [] d = d"
| "scanOutputs (out # os) d = scanOutputs os (scanForActions out out d)"

text \<open>
  \<^verbatim>\<open>returned()\<close> on the driver at \<open>this\<close>. \<open>self\<close> tells whether the search of
  \<^verbatim>\<open>activeActions\<close> found the driver, that is whether the owning pointer \<^verbatim>\<open>self\<close> is
  set; the driver is then removed at its first index. In the branch of the missing
  dependencies \<^verbatim>\<open>self\<close> is adopted by \<^verbatim>\<open>blockedActionPtrs\<close> under the key
  \<open>this\<close>; a null \<^verbatim>\<open>self\<close> records no key in the model. In the other two branches
  \<^verbatim>\<open>self\<close>, if set, goes out of scope at the end and the driver is destroyed.
  A state PENDING is only reported (\<^verbatim>\<open>DEBUG_ERROR\<close>).
\<close>

definition returned :: "ActionDriverPtr \<Rightarrow> Driver \<Rightarrow> Driver" where
  "returned this d0 =
     (case heap d0 this of
        None \<Rightarrow> d0
      | Some a \<Rightarrow>
          (let self = (this \<in> set (activeActions d0));
               d = d0\<lparr>activeActions := remove1 this (activeActions d0)\<rparr>
           in if missingDependencies a \<noteq> []
              then
                (let a1 = a\<lparr>state := PENDING, provisions := [], outputs := [],
                             dashboardTask := setState Dashboard_BLOCKED (dashboardTask a)\<rparr>;
                     d1 = cancelAll this d;
                     d2 = d1\<lparr>heap := (heap d1)(this \<mapsto> a1)\<rparr>
                 in d2\<lparr>blockedActionPtrs :=
                          (if self then removeAll this (blockedActionPtrs d2) @ [this]
                           else blockedActionPtrs d2),
                        blockedActions := blockedActions d2
                          @ map (\<lambda>e. (fst e, this)) (missingDependencies a)\<rparr>)
              else if state a = SUCCEEDED \<or> state a = PASSED
              then
                (let a1 = a\<lparr>dashboardTask := setState
                             (if state a = PASSED then Dashboard_PASSED else Dashboard_SUCCESS)
                             (dashboardTask a)\<rparr>;
                     d1 = d\<lparr>heap := (heap d)(this \<mapsto> a1)\<rparr>;
                     d2 = registerProviders (provisions a) d1;
                     d3 = scanOutputs (outputs a) d2
                 in if self then ActionDriver_dtor this d3 else d3)
              else
                (let a1 = a\<lparr>dashboardTask := setState Dashboard_FAILED (dashboardTask a)\<rparr>;
                     d1 = d\<lparr>heap := (heap d)(this \<mapsto> a1)\<rparr>
                 in if self then ActionDriver_dtor this d1 else d1)))"

subsection \<open>The event loop\<close>

text \<open>
  What happens to a driver between its construction and its destruction: a factory is
  registered, \<^verbatim>\<open>Driver::start()\<close> is called, a running action calls its build context,
  the event group reports an exception of the action to its handler, or the event manager
  runs one of the callbacks posted. The event manager may run the callbacks in any order. A
  call that throws leaves the state as it is. Nothing is called on a driver that has been
  destroyed.
\<close>

datatype BuildContextCall =
  FindProvider EntityId string
  | FindOptionalProvider EntityId
  | Provide File "EntityId list"
  | Log string
  | NewOutput string
  | Success
  | Passed
  | Failed

datatype Event =
  AddActionFactory string ActionFactory
  | DriverStart
  | Call ActionDriverPtr BuildContextCall
  | ThrewException ActionDriverPtr string
  | ThrewUnknownException ActionDriverPtr
  | RunCallback Callback

fun contextCall :: "ActionDriverPtr \<Rightarrow> ActionDriver \<Rightarrow> BuildContextCall \<Rightarrow> Driver \<Rightarrow> Driver" where
  "contextCall this a (FindProvider eid title) d =
     (case findProvider this a eid title d of Inl e \<Rightarrow> d | Inr (r, d1) \<Rightarrow> d1)"
| "contextCall this a (FindOptionalProvider eid) d =
     (case findOptionalProvider this a eid d of Inl e \<Rightarrow> d | Inr (r, d1) \<Rightarrow> d1)"
| "contextCall this a (Provide f ents) d =
     (case provide this a f ents d of Inl e \<Rightarrow> d | Inr d1 \<Rightarrow> d1)"
| "contextCall this a (Log text) d =
     (case log this a text d of Inl e \<Rightarrow> d | Inr d1 \<Rightarrow> d1)"
| "contextCall this a (NewOutput b) d =
     (case newOutput this a b d of Inl e \<Rightarrow> d | Inr (r, d1) \<Rightarrow> d1)"
| "contextCall this a Success d =
     (case success this a d of Inl e \<Rightarrow> d | Inr d1 \<Rightarrow> d1)"
| "contextCall this a Passed d =
     (case passed this a d of Inl e \<Rightarrow> d | Inr d1 \<Rightarrow> d1)"
| "contextCall this a Failed d =
     (case failed this a d of Inl e \<Rightarrow> d | Inr d1 \<Rightarrow> d1)"

text \<open>
  \<^verbatim>\<open>StartCallback::run\<close> hands control to the action, whose deeds are events of their own;
  \<^verbatim>\<open>DoneCallback::run\<close> is \<^verbatim>\<open>returned()\<close> followed by \<^verbatim>\<open>startSomeActions()\<close>.
\<close>

fun runCallback :: "Callback \<Rightarrow> Driver \<Rightarrow> Driver" where
  "runCallback (StartCallback p) d = d"
| "runCallback (DoneCallback p) d = startSomeActions (returned p d)"

fun exec :: "Event \<Rightarrow> Driver \<Rightarrow> Driver" where
  "exec (AddActionFactory name factory) d = addActionFactory name factory d"
| "exec DriverStart d = Driver_start d"
| "exec (Call this c) d =
     (case heap d this of None \<Rightarrow> d | Some a \<Rightarrow> contextCall this a c d)"
| "exec (ThrewException this what) d =
     (case heap d this of None \<Rightarrow> d | Some a \<Rightarrow> threwException this a what d)"
| "exec (ThrewUnknownException this) d =
     (case heap d this of None \<Rightarrow> d | Some a \<Rightarrow> threwUnknownException this a d)"
| "exec (RunCallback cb) d =
     (if cb \<in> set (eventQueue d)
      then runCallback cb (d\<lparr>eventQueue := remove1 cb (eventQueue d)\<rparr>)
      else d)"

fun run :: "Event list \<Rightarrow> Driver \<Rightarrow> Driver" where
  "run [] d = d"
| "run (e # es) d = run es (exec e d)"

subsection \<open>A build of two source files\<close>

text \<open>
  A concrete build, used to exercise the statements below. The source directory holds
  \<^verbatim>\<open>a.c\<close> and \<^verbatim>\<open>b.c\<close>; the only factory makes a \<open>compile\<close> action for every plain
  file and asks to be triggered by entity 1, for which it makes a \<open>link\<close> action. At most
  two actions run at once. Driver 0 compiles \<^verbatim>\<open>b.c\<close>, driver 1 compiles \<^verbatim>\<open>a.c\<close>.
  Driver 1 looks for entity 2, which nobody provides yet, and fails; its completion blocks it
  on entity 2. Driver 0 then provides entities 1 and 2 with one file, creates an output and
  succeeds; its completion commits.
\<close>

definition ex_factory :: ActionFactory where
  "ex_factory =
     \<lparr>tryMakeAction = (\<lambda>f. if isDirectory f then None else Some (Action ''compile'')),
      tryMakeAction_entity = (\<lambda>e f. Some (Action ''link'')),
      enumerateTriggerEntities = [1]\<rparr>"

definition ex_src :: File where
  "ex_src = File [''src''] True
     [File [''src'', ''a.c''] False [], File [''src'', ''b.c''] False []]"

definition ex_tmp :: File where
  "ex_tmp = File [''tmp''] True []"

definition ex_lib :: File where
  "ex_lib = File [''tmp'', ''lib.a''] False []"

definition ex_events_started :: "Event list" where
  "ex_events_started =
     [AddActionFactory ''cc'' ex_factory, DriverStart,
      RunCallback (StartCallback 1), RunCallback (StartCallback 0)]"

definition ex_events_missing :: "Event list" where
  "ex_events_missing = ex_events_started @ [Call 1 (FindProvider 2 ''hdr'')]"

definition ex_events_failed :: "Event list" where
  "ex_events_failed = ex_events_missing @ [Call 1 Failed]"

definition ex_events_blocked :: "Event list" where
  "ex_events_blocked = ex_events_failed @ [RunCallback (DoneCallback 1)]"

definition ex_events_ready :: "Event list" where
  "ex_events_ready = ex_events_blocked
     @ [Call 0 (Provide ex_lib [1, 2]), Call 0 (NewOutput ''gen.h''), Call 0 Success]"

definition ex_events_committed :: "Event list" where
  "ex_events_committed = ex_events_ready @ [RunCallback (DoneCallback 0)]"

definition ex_started :: Driver where
  "ex_started = run ex_events_started (Driver_ctor ex_src ex_tmp 2)"

definition ex_missing :: Driver where
  "ex_missing = run ex_events_missing (Driver_ctor ex_src ex_tmp 2)"

definition ex_failed :: Driver where
  "ex_failed = run ex_events_failed (Driver_ctor ex_src ex_tmp 2)"

definition ex_blocked :: Driver where
  "ex_blocked = run ex_events_blocked (Driver_ctor ex_src ex_tmp 2)"

definition ex_ready :: Driver where
  "ex_ready = run ex_events_ready (Driver_ctor ex_src ex_tmp 2)"

definition ex_committed :: Driver where
  "ex_committed = run ex_events_committed (Driver_ctor ex_src ex_tmp 2)"

text \<open>
  Further states of the same build: \<open>ex_returned\<close> is the commit of driver 0 just before
  \<^verbatim>\<open>startSomeActions\<close>; in \<open>ex_blocked_twice\<close> driver 1 misses entities 2 and 5 when it
  is blocked; in \<open>ex_done\<close> driver 1, promoted and run again, has found entity 2 and
  committed. \<open>ex_obj\<close> is another file, and \<open>ex_gen\<close> is the output of driver 0.
\<close>

definition ex_returned :: Driver where
  "ex_returned = returned 0 (ex_ready\<lparr>eventQueue := remove1 (DoneCallback 0) (eventQueue ex_ready)\<rparr>)"



definition ex_obj :: File where
  "ex_obj = File [''tmp'', ''lib.o''] False []"

definition ex_events_done :: "Event list" where
  "ex_events_done = ex_events_committed
     @ [RunCallback (StartCallback 1), Call 1 (FindProvider 2 ''hdr''), Call 1 Success,
        RunCallback (DoneCallback 1)]"

definition ex_done :: Driver where
  "ex_done = run ex_events_done (Driver_ctor ex_src ex_tmp 2)"

definition ex_gen :: File where
  "ex_gen = File [''tmp'', ''gen.h''] False []"

text \<open>
  Two more runs from \<open>ex_blocked\<close>: driver 0 provides entity 1 with \<open>ex_lib\<close> once, and
  twice (two calls of \<^verbatim>\<open>provide\<close> with the same file and entity), then succeeds and
  commits.
\<close>

definition ex_events_published :: "Event list" where
  "ex_events_published = ex_events_blocked
     @ [Call 0 (Provide ex_lib [1]), Call 0 Success, RunCallback (DoneCallback 0)]"

definition ex_events_published_twice :: "Event list" where
  "ex_events_published_twice = ex_events_blocked
     @ [Call 0 (Provide ex_lib [1]), Call 0 (Provide ex_lib [1]), Call 0 Success,
        RunCallback (DoneCallback 0)]"

definition ex_published :: Driver where
  "ex_published = run ex_events_published (Driver_ctor ex_src ex_tmp 2)"

definition ex_published_twice :: Driver where
  "ex_published_twice = run ex_events_published_twice (Driver_ctor ex_src ex_tmp 2)"

subsection \<open>Reading the log and the blocking index\<close>

text \<open>
  Notions in which the properties below are stated. \<open>started\<close> lists, in order, the
  drivers on which the log records an entry of \<^verbatim>\<open>start()\<close>. \<open>freeSlots\<close> is the number
  of actions that may still be started, \<^verbatim>\<open>maxConcurrentActions\<close> less the number of
  active actions, or none. \<open>waiters eid d\<close> is the bucket of \<open>eid\<close> in
  \<^verbatim>\<open>blockedActions\<close>, the result of \<^verbatim>\<open>equal_range\<close>; \<open>unblockedBy eid d w\<close> says
  that the driver at \<open>w\<close> is live and misses nothing but \<open>eid\<close>; \<open>eraseMissing\<close> erases
  an entity from the missing dependencies of a driver. The remaining notions classify the
  entries of a log and state orders among them: \<open>unblocksBeforeTriggers\<close> holds of a log
  in which no unblock comes after a trigger, \<open>unblocksBeforeTriggersOf e\<close> of one in which
  no unblock for the entity \<open>e\<close> comes after a trigger for \<open>e\<close>, and
  \<open>triggersBeforeScans\<close> of one in which neither a trigger nor an unblock comes after a
  scan.
\<close>

fun startedOf :: "Observation \<Rightarrow> ActionDriverPtr list" where
  "startedOf (Start p a) = [p]"
| "startedOf (Unblock eid w) = []"
| "startedOf (Trigger eid f) = []"
| "startedOf (Scan s t) = []"
| "startedOf (CancelAll p) = []"

definition started :: "Observation list \<Rightarrow> ActionDriverPtr list" where
  "started tr = concat (map startedOf tr)"

definition freeSlots :: "Driver \<Rightarrow> nat" where
  "freeSlots d = nat (maxConcurrentActions d - int (length (activeActions d)))"

definition waiters :: "EntityId \<Rightarrow> Driver \<Rightarrow> ActionDriverPtr list" where
  "waiters eid d = map snd (filter (\<lambda>e. fst e = eid) (blockedActions d))"

definition unblockedBy :: "EntityId \<Rightarrow> Driver \<Rightarrow> ActionDriverPtr \<Rightarrow> bool" where
  "unblockedBy eid d w =
     (case heap d w of None \<Rightarrow> False | Some b \<Rightarrow> AList.delete eid (missingDependencies b) = [])"

definition eraseMissing :: "EntityId \<Rightarrow> ActionDriver \<Rightarrow> ActionDriver" where
  "eraseMissing eid b = b\<lparr>missingDependencies := AList.delete eid (missingDependencies b)\<rparr>"

text \<open>
  The factories registered for an entity (the \<^verbatim>\<open>equal_range\<close> of \<^verbatim>\<open>triggers\<close>, lines
  319 and 320), and whether a factory makes an action of an entity and its file (the test
  of \<^verbatim>\<open>tryMakeAction\<close> at line 324).
\<close>

definition triggered :: "EntityId \<Rightarrow> Driver \<Rightarrow> ActionFactory list" where
  "triggered eid d = map snd (filter (\<lambda>e. fst e = eid) (triggers d))"

definition makes :: "EntityId \<Rightarrow> File \<Rightarrow> ActionFactory \<Rightarrow> bool" where
  "makes eid f factory \<longleftrightarrow> tryMakeAction_entity factory eid f \<noteq> None"

fun isUnblock :: "Observation \<Rightarrow> bool" where
  "isUnblock (Unblock e w) = True"
| "isUnblock (Trigger e f) = False"
| "isUnblock (Scan s t) = False"
| "isUnblock (CancelAll p) = False"
| "isUnblock (Start p a) = False"

fun isTrigger :: "Observation \<Rightarrow> bool" where
  "isTrigger (Trigger e f) = True"
| "isTrigger (Unblock e w) = False"
| "isTrigger (Scan s t) = False"
| "isTrigger (CancelAll p) = False"
| "isTrigger (Start p a) = False"

fun isScan :: "Observation \<Rightarrow> bool" where
  "isScan (Scan s t) = True"
| "isScan (Unblock e w) = False"
| "isScan (Trigger e f) = False"
| "isScan (CancelAll p) = False"
| "isScan (Start p a) = False"

fun isUnblockOf :: "EntityId \<Rightarrow> Observation \<Rightarrow> bool" where
  "isUnblockOf e (Unblock e' w) = (e' = e)"
| "isUnblockOf e (Trigger e' f) = False"
| "isUnblockOf e (Scan s t) = False"
| "isUnblockOf e (CancelAll p) = False"
| "isUnblockOf e (Start p a) = False"

fun isTriggerOf :: "EntityId \<Rightarrow> Observation \<Rightarrow> bool" where
  "isTriggerOf e (Trigger e' f) = (e' = e)"
| "isTriggerOf e (Unblock e' w) = False"
| "isTriggerOf e (Scan s t) = False"
| "isTriggerOf e (CancelAll p) = False"
| "isTriggerOf e (Start p a) = False"

definition unblocksBeforeTriggers :: "Observation list \<Rightarrow> bool" where
  "unblocksBeforeTriggers tr \<longleftrightarrow> \<not> list_ex isUnblock (dropWhile (\<lambda>ob. \<not> isTrigger ob) tr)"

definition unblocksBeforeTriggersOf :: "EntityId \<Rightarrow> Observation list \<Rightarrow> bool" where
  "unblocksBeforeTriggersOf e tr \<longleftrightarrow>
     \<not> list_ex (isUnblockOf e) (dropWhile (\<lambda>ob. \<not> isTriggerOf e ob) tr)"

definition triggersBeforeScans :: "Observation list \<Rightarrow> bool" where
  "triggersBeforeScans tr \<longleftrightarrow>
     \<not> list_ex (\<lambda>ob. isTrigger ob \<or> isUnblock ob) (dropWhile (\<lambda>ob. \<not> isScan ob) tr)"

subsection \<open>Auxiliary notions for the proofs\<close>

text \<open>
  \<open>clean\<close> holds of a driver that waits in state PENDING and carries nothing of a run;
  \<open>cleanAt\<close>, \<open>idleAt\<close> and \<open>finishedAt\<close> read the store. \<open>Inv0 F\<close> is the
  invariant of the collections, for a set \<open>F\<close> of drivers that have reported their outcome;
  \<open>Inv\<close> takes for \<open>F\<close> the drivers with a \<^verbatim>\<open>DoneCallback\<close> posted. \<open>frame\<close> relates
  two states that agree on what the loops of \<^verbatim>\<open>returned()\<close> and the scan never touch,
  \<open>queues\<close> relates a state to one reached from it by queueing new actions only,
  \<open>bounded\<close> is the cap on the active actions, and \<open>commitSegment e d d' seg\<close> says that
  \<open>d'\<close> is reached from \<open>d\<close> by writing the stretch \<open>seg\<close> of the log, made of
  unblocks and triggers in the order stated for \<open>e\<close>.
\<close>

definition clean :: "ActionDriver \<Rightarrow> bool" where
  "clean a \<longleftrightarrow> state a = PENDING \<and> missingDependencies a = [] \<and> provisions a = [] \<and> outputs a = []"

definition cleanAt :: "Driver \<Rightarrow> ActionDriverPtr \<Rightarrow> bool" where
  "cleanAt d p = (case heap d p of None \<Rightarrow> False | Some a \<Rightarrow> clean a)"

definition idleAt :: "Driver \<Rightarrow> ActionDriverPtr \<Rightarrow> bool" where
  "idleAt d p = (case heap d p of None \<Rightarrow> False
     | Some a \<Rightarrow> state a = PENDING \<and> provisions a = [] \<and> outputs a = [])"

definition finishedAt :: "Driver \<Rightarrow> ActionDriverPtr \<Rightarrow> bool" where
  "finishedAt d p = (case heap d p of None \<Rightarrow> False
     | Some a \<Rightarrow> state a \<noteq> PENDING \<and> state a \<noteq> RUNNING)"

definition startsClean :: "Observation \<Rightarrow> bool" where
  "startsClean ob = (case ob of Start p a \<Rightarrow> clean a | _ \<Rightarrow> True)"

definition Inv0 :: "ActionDriverPtr set \<Rightarrow> Driver \<Rightarrow> bool" where
  "Inv0 F d \<longleftrightarrow>
     distinct (pendingActions d)
     \<and> (\<forall>p\<in>set (pendingActions d). cleanAt d p)
     \<and> (\<forall>p\<in>set (blockedActionPtrs d). p \<notin> set (pendingActions d) \<and> idleAt d p)
     \<and> (\<forall>p. nextPtr d \<le> p \<longrightarrow> heap d p = None)
     \<and> (\<forall>p\<in>F. finishedAt d p)
     \<and> list_all startsClean (trace d)"

definition frame :: "Driver \<Rightarrow> Driver \<Rightarrow> bool" where
  "frame d d' \<longleftrightarrow> src d' = src d \<and> tmp d' = tmp d
     \<and> maxConcurrentActions d' = maxConcurrentActions d
     \<and> actionFactories d' = actionFactories d \<and> triggers d' = triggers d
     \<and> activeActions d' = activeActions d \<and> eventQueue d' = eventQueue d"

fun isDone :: "Callback \<Rightarrow> bool" where
  "isDone (DoneCallback p) = True"
| "isDone (StartCallback p) = False"

definition doneSet :: "Driver \<Rightarrow> ActionDriverPtr set" where
  "doneSet d = {p. DoneCallback p \<in> set (filter isDone (eventQueue d))}"

definition Inv :: "Driver \<Rightarrow> bool" where
  "Inv d \<longleftrightarrow> Inv0 (doneSet d) d \<and> distinct (filter isDone (eventQueue d))"

definition bounded :: "Driver \<Rightarrow> bool" where
  "bounded d \<longleftrightarrow> int (length (activeActions d)) \<le> maxConcurrentActions d"

definition queues :: "Driver \<Rightarrow> Driver \<Rightarrow> bool" where
  "queues d d' \<longleftrightarrow>
     entityMap d' = entityMap d \<and> filePtrs d' = filePtrs d
     \<and> blockedActions d' = blockedActions d \<and> blockedActionPtrs d' = blockedActionPtrs d
     \<and> nextPtr d \<le> nextPtr d'
     \<and> (\<forall>p<nextPtr d. heap d' p = heap d p)
     \<and> (\<exists>ps. pendingActions d' = pendingActions d @ ps \<and> (\<forall>p\<in>set ps. nextPtr d \<le> p))"

definition commitSegment :: "EntityId \<Rightarrow> Driver \<Rightarrow> Driver \<Rightarrow> Observation list \<Rightarrow> bool" where
  "commitSegment e d d' seg \<longleftrightarrow>
     trace d' = trace d @ seg
     \<and> list_all (\<lambda>ob. isUnblock ob \<or> isTrigger ob) seg
     \<and> unblocksBeforeTriggersOf e seg
     \<and> (waiters e d = [] \<longrightarrow> \<not> list_ex (isUnblockOf e) seg)
     \<and> (waiters e d = [] \<or> list_ex (isTriggerOf e) seg \<longrightarrow> waiters e d' = [])"

section \<open>Invariants of the event loop\<close>

lemma clean_ctor [simp]: "clean (ActionDriver_ctor act t task)"
  by (simp add: clean_def ActionDriver_ctor_def)

lemma Inv0_fresh:
  assumes "Inv0 F d"
  shows "heap d (nextPtr d) = None" "nextPtr d \<notin> set (pendingActions d)"
    "nextPtr d \<notin> set (blockedActionPtrs d)" "nextPtr d \<notin> F"
proof -
  from assms show h: "heap d (nextPtr d) = None" by (simp add: Inv0_def)
  from assms h show "nextPtr d \<notin> set (pendingActions d)"
    by (auto simp: Inv0_def cleanAt_def)
  from assms h show "nextPtr d \<notin> set (blockedActionPtrs d)"
    by (auto simp: Inv0_def idleAt_def)
  from assms h show "nextPtr d \<notin> F"
    by (auto simp: Inv0_def finishedAt_def)
qed

lemma Inv0_queueNewAction: 
  assumes "Inv0 F d" shows "Inv0 F (queueNewAction act f t d)"
  using assms Inv0_fresh [OF assms]
  unfolding Inv0_def queueNewAction_def Let_def
  by (auto simp: cleanAt_def idleAt_def finishedAt_def)

lemma Inv0_tryFactories: "Inv0 F d \<Longrightarrow> Inv0 F (tryFactories fs s t d)"
  by (induction fs arbitrary: d) (auto simp: Inv0_queueNewAction split: option.splits)

lemma Inv0_scanLoop: "Inv0 F d \<Longrightarrow> Inv0 F (scanLoop q d)"
proof (induction q d rule: scanLoop.induct)
  case (1 fileQueue d)
  show ?case
  proof (cases "fileQueue = []")
    case True
    with 1 show ?thesis by (subst scanLoop.simps) simp
  next
    case False
    show ?thesis
    proof (cases "isDirectory (fst (last fileQueue))")
      case True
      with False 1 show ?thesis by (subst scanLoop.simps) (simp add: Let_def)
    next
      case dir: False
      with False 1 show ?thesis
        by (subst scanLoop.simps) (simp add: Let_def Inv0_tryFactories)
    qed
  qed
qed

lemma Inv0_trace: "Inv0 F d \<Longrightarrow> startsClean ob \<Longrightarrow> Inv0 F (d\<lparr>trace := trace d @ [ob]\<rparr>)"
  by (simp add: Inv0_def cleanAt_def idleAt_def finishedAt_def)

lemma Inv0_scanForActions: "Inv0 F d \<Longrightarrow> Inv0 F (scanForActions s t d)"
  by (simp add: scanForActions_def Inv0_scanLoop Inv0_trace startsClean_def)

lemma Inv0_scanOutputs: "Inv0 F d \<Longrightarrow> Inv0 F (scanOutputs os d)"
  by (induction os arbitrary: d) (auto simp: Inv0_scanForActions)

lemma Inv0_heap_upd:
  assumes "Inv0 F d" "heap d w = Some b" "state b' = state b" "provisions b' = provisions b"
    "outputs b' = outputs b" "missingDependencies b = [] \<Longrightarrow> missingDependencies b' = []"
  shows "Inv0 F (d\<lparr>heap := (heap d)(w \<mapsto> b')\<rparr>)"
  using assms unfolding Inv0_def
  by (auto simp: cleanAt_def idleAt_def finishedAt_def clean_def)

lemma Inv0_promote:
  assumes "Inv0 F d" "w \<in> set (blockedActionPtrs d)" "heap d w = Some b" "missingDependencies b = []"
  shows "Inv0 F (d\<lparr>blockedActionPtrs := removeAll w (blockedActionPtrs d),
                        pendingActions := pendingActions d @ [w]\<rparr>)"
  using assms unfolding Inv0_def
  by (auto simp: cleanAt_def idleAt_def finishedAt_def clean_def)

lemma Inv0_unblockLoop: "Inv0 F d \<Longrightarrow> Inv0 F (unblockLoop eid ws d)"
proof (induction ws arbitrary: d)
  case Nil
  then show ?case by simp
next
  case (Cons w ws)
  show ?case
  proof (cases "heap d w")
    case None
    with Cons show ?thesis by simp
  next
    case (Some b)
    let ?b1 = "b\<lparr>missingDependencies := AList.delete eid (missingDependencies b)\<rparr>"
    let ?d0 = "d\<lparr>heap := (heap d)(w \<mapsto> ?b1)\<rparr>"
    let ?d1 = "?d0\<lparr>trace := trace ?d0 @ [Unblock eid w]\<rparr>"
    have "Inv0 F ?d0"
      using Cons.prems Some by (rule Inv0_heap_upd) simp_all
    then have d1: "Inv0 F ?d1"
      by (rule Inv0_trace) (simp add: startsClean_def)
    show ?thesis
    proof (cases "missingDependencies ?b1 = [] \<and> w \<in> set (blockedActionPtrs d)")
      case True
      have "Inv0 F (?d1\<lparr>blockedActionPtrs := removeAll w (blockedActionPtrs ?d1),
                        pendingActions := pendingActions ?d1 @ [w]\<rparr>)"
        using d1 by (rule Inv0_promote [where b = ?b1]) (use True in simp_all)
      from Cons.IH [OF this] Some True show ?thesis
        by (simp add: Let_def)
    next
      case False
      from Cons.IH [OF d1] Some False show ?thesis
        by (auto simp: Let_def)
    qed
  qed
qed

lemma Inv0_fireLoop: "Inv0 F d \<Longrightarrow> Inv0 F (fireLoop eid f fs d)"
proof (induction fs arbitrary: d)
  case Nil
  then show ?case by simp
next
  case (Cons factory fs)
  have d1: "Inv0 F (d\<lparr>trace := trace d @ [Trigger eid f]\<rparr>)"
    using Cons.prems by (rule Inv0_trace) (simp add: startsClean_def)
  show ?case
  proof (cases "tryMakeAction_entity factory eid f")
    case None
    with Cons.IH [OF d1] show ?thesis by (simp add: Let_def)
  next
    case (Some act)
    with Cons.IH [OF Inv0_queueNewAction [OF d1]] show ?thesis by (simp add: Let_def)
  qed
qed

lemma Inv0_entityMap [simp]: "Inv0 F (d\<lparr>entityMap := x\<rparr>) = Inv0 F d"
  by (simp add: Inv0_def cleanAt_def idleAt_def finishedAt_def)

lemma Inv0_filePtrs [simp]: "Inv0 F (d\<lparr>filePtrs := x\<rparr>) = Inv0 F d"
  by (simp add: Inv0_def cleanAt_def idleAt_def finishedAt_def)

lemma Inv0_blockedActions [simp]: "Inv0 F (d\<lparr>blockedActions := x\<rparr>) = Inv0 F d"
  by (simp add: Inv0_def cleanAt_def idleAt_def finishedAt_def)

lemma Inv0_activeActions [simp]: "Inv0 F (d\<lparr>activeActions := x\<rparr>) = Inv0 F d"
  by (simp add: Inv0_def cleanAt_def idleAt_def finishedAt_def)

lemma Inv0_eventQueue [simp]: "Inv0 F (d\<lparr>eventQueue := x\<rparr>) = Inv0 F d"
  by (simp add: Inv0_def cleanAt_def idleAt_def finishedAt_def)

lemma Inv0_unblockBlockedActions: "Inv0 F d \<Longrightarrow> Inv0 F (unblockBlockedActions eid d)"
  unfolding unblockBlockedActions_def Let_def
  by (simp only: Inv0_blockedActions) (rule Inv0_unblockLoop)

lemma Inv0_fireTriggers: "Inv0 F d \<Longrightarrow> Inv0 F (fireTriggers eid f d)"
  unfolding fireTriggers_def by (rule Inv0_fireLoop)

lemma Inv0_registerEntity: "Inv0 F d \<Longrightarrow> Inv0 F (registerEntity f eid d)"
  unfolding registerEntity_def
  by (intro Inv0_fireTriggers Inv0_unblockBlockedActions) (simp only: Inv0_entityMap)

lemma Inv0_registerEntities: "Inv0 F d \<Longrightarrow> Inv0 F (registerEntities f es d)"
proof (induction es arbitrary: d)
  case Nil
  then show ?case by simp
next
  case (Cons e es)
  from Cons.IH [OF Inv0_registerEntity [OF Cons.prems]] show ?case by simp
qed

lemma Inv0_registerProviders: "Inv0 F d \<Longrightarrow> Inv0 F (registerProviders ps d)"
proof (induction ps arbitrary: d)
  case Nil
  then show ?case by simp
next
  case (Cons p ps)
  have "Inv0 F (d\<lparr>filePtrs := filePtrs d @ [pfile p]\<rparr>)"
    using Cons.prems by (simp only: Inv0_filePtrs)
  from Cons.IH [OF Inv0_registerEntities [OF this]] show ?case by simp
qed

lemma Inv0_mono: "Inv0 F d \<Longrightarrow> F' \<subseteq> F \<Longrightarrow> Inv0 F' d"
  by (auto simp: Inv0_def)

lemma Inv0_finished_not_queued:
  assumes "Inv0 F d" "this \<in> F"
  shows "this \<notin> set (pendingActions d)" "this \<notin> set (blockedActionPtrs d)"
proof -
  from assms have f: "finishedAt d this" by (simp add: Inv0_def)
  show "this \<notin> set (pendingActions d)"
  proof
    assume "this \<in> set (pendingActions d)"
    with assms(1) have "cleanAt d this" by (simp add: Inv0_def)
    with f show False
      by (simp add: cleanAt_def finishedAt_def clean_def split: option.splits)
  qed
  show "this \<notin> set (blockedActionPtrs d)"
  proof
    assume "this \<in> set (blockedActionPtrs d)"
    with assms(1) have "idleAt d this" by (simp add: Inv0_def)
    with f show False
      by (simp add: idleAt_def finishedAt_def split: option.splits)
  qed
qed

lemma Inv0_ActionDriver_dtor:
  assumes "Inv0 (insert this F) d" "this \<notin> F"
  shows "Inv0 F (ActionDriver_dtor this d)"
  using assms Inv0_finished_not_queued [OF assms(1), of this]
  unfolding Inv0_def ActionDriver_dtor_def cancelAll_def Let_def
  by (auto simp: cleanAt_def idleAt_def finishedAt_def startsClean_def)

lemma Inv0_cancelAll [simp]: "Inv0 F (cancelAll this d) = Inv0 F d"
  by (simp add: cancelAll_def Inv0_def cleanAt_def idleAt_def finishedAt_def startsClean_def)

lemma Inv0_heap_upd_free:
  assumes "Inv0 F d" "this \<notin> set (pendingActions d)" "this \<notin> set (blockedActionPtrs d)"
    "this \<notin> F" "heap d this = Some a"
  shows "Inv0 F (d\<lparr>heap := (heap d)(this \<mapsto> a')\<rparr>)"
  using assms unfolding Inv0_def
  by (auto simp: cleanAt_def idleAt_def finishedAt_def)

lemma Inv0_adopt_blocked:
  assumes "Inv0 F d" "idleAt d this" "this \<notin> set (pendingActions d)"
  shows "Inv0 F (d\<lparr>blockedActionPtrs := removeAll this (blockedActionPtrs d) @ [this]\<rparr>)"
  using assms unfolding Inv0_def
  by (auto simp: cleanAt_def idleAt_def finishedAt_def)

lemma Inv0_returned:
  assumes inv: "Inv0 (insert this F) d" and nin: "this \<notin> F"
  shows "Inv0 F (returned this d)"
proof -
  from inv obtain a where a: "heap d this = Some a" and fin: "state a \<noteq> PENDING" "state a \<noteq> RUNNING"
    by (auto simp: Inv0_def finishedAt_def split: option.splits)
  note nq = Inv0_finished_not_queued [OF inv, of this, simplified]
  let ?d = "d\<lparr>activeActions := remove1 this (activeActions d)\<rparr>"
  have inv': "Inv0 (insert this F) ?d" using inv by simp
  have invF: "Inv0 F ?d" using inv' by (rule Inv0_mono) auto
  show ?thesis
  proof (cases "missingDependencies a \<noteq> []")
    case True
    let ?a1 = "a\<lparr>state := PENDING, provisions := [], outputs := [],
                 dashboardTask := setState Dashboard_BLOCKED (dashboardTask a)\<rparr>"
    let ?d1 = "cancelAll this ?d"
    let ?d2 = "?d1\<lparr>heap := (heap ?d1)(this \<mapsto> ?a1)\<rparr>"
    have d1: "Inv0 F ?d1" using invF by simp
    have d2: "Inv0 F ?d2"
      using d1 by (rule Inv0_heap_upd_free [where a = a]) (use nq nin a in \<open>simp_all add: cancelAll_def\<close>)
    have d3: "Inv0 F (?d2\<lparr>blockedActionPtrs := removeAll this (blockedActionPtrs ?d2) @ [this]\<rparr>)"
      using d2 by (rule Inv0_adopt_blocked) (use nq in \<open>simp_all add: idleAt_def cancelAll_def\<close>)
    have "returned this d =
       (let d2 = ?d2 in d2\<lparr>blockedActionPtrs :=
                          (if this \<in> set (activeActions d) then removeAll this (blockedActionPtrs d2) @ [this]
                           else blockedActionPtrs d2),
                        blockedActions := blockedActions d2
                          @ map (\<lambda>e. (fst e, this)) (missingDependencies a)\<rparr>)"
      using a True by (simp add: returned_def Let_def)
    also have "Inv0 F \<dots>"
    proof (cases "this \<in> set (activeActions d)")
      case True
      with d3 show ?thesis by (simp add: Let_def)
    next
      case False
      with d2 show ?thesis by (simp add: Let_def)
    qed
    finally show ?thesis .
  next
    case False
    show ?thesis
    proof (cases "state a = SUCCEEDED \<or> state a = PASSED")
      case True
      let ?a1 = "a\<lparr>dashboardTask := setState
                 (if state a = PASSED then Dashboard_PASSED else Dashboard_SUCCESS) (dashboardTask a)\<rparr>"
      let ?d1 = "?d\<lparr>heap := (heap ?d)(this \<mapsto> ?a1)\<rparr>"
      let ?d3 = "scanOutputs (outputs a) (registerProviders (provisions a) ?d1)"
      have "Inv0 (insert this F) ?d1"
        using inv' by (rule Inv0_heap_upd [where b = a]) (simp_all add: a)
      then have d3: "Inv0 (insert this F) ?d3"
        by (intro Inv0_scanOutputs Inv0_registerProviders)
      have "returned this d = (if this \<in> set (activeActions d) then ActionDriver_dtor this ?d3 else ?d3)"
        using a False True by (simp add: returned_def Let_def)
      also have "Inv0 F \<dots>"
        using Inv0_ActionDriver_dtor [OF d3 nin] Inv0_mono [OF d3 subset_insertI] by simp
      finally show ?thesis .
    next
      case notcommit: False
      let ?a1 = "a\<lparr>dashboardTask := setState Dashboard_FAILED (dashboardTask a)\<rparr>"
      let ?d1 = "?d\<lparr>heap := (heap ?d)(this \<mapsto> ?a1)\<rparr>"
      have d1: "Inv0 (insert this F) ?d1"
        using inv' by (rule Inv0_heap_upd [where b = a]) (simp_all add: a)
      have "returned this d = (if this \<in> set (activeActions d) then ActionDriver_dtor this ?d1 else ?d1)"
        using a False notcommit by (simp add: returned_def Let_def)
      also have "Inv0 F \<dots>"
        using Inv0_ActionDriver_dtor [OF d1 nin] Inv0_mono [OF d1 subset_insertI] by simp
      finally show ?thesis .
    qed
  qed
qed

lemma frame_refl [simp]: "frame d d"
  by (simp add: frame_def)

lemma frame_trans: "frame d d1 \<Longrightarrow> frame d1 d2 \<Longrightarrow> frame d d2"
  by (simp add: frame_def)

lemma frame_queueNewAction: "frame d (queueNewAction act f t d)"
  by (simp add: frame_def queueNewAction_def Let_def)

lemma frame_tryFactories: "frame d (tryFactories fs s t d)"
proof (induction fs arbitrary: d)
  case Nil
  show ?case by simp
next
  case (Cons factory fs)
  show ?case
  proof (cases "tryMakeAction factory s")
    case None
    with Cons show ?thesis by simp
  next
    case (Some act)
    from frame_trans [OF frame_queueNewAction Cons] Some show ?thesis by simp
  qed
qed

lemma frame_scanLoop: "frame d (scanLoop q d)"
proof (induction q d rule: scanLoop.induct)
  case (1 fileQueue d)
  show ?case
  proof (cases "fileQueue = []")
    case True
    then show ?thesis by (subst scanLoop.simps) simp
  next
    case False
    show ?thesis
    proof (cases "isDirectory (fst (last fileQueue))")
      case True
      with False 1 show ?thesis by (subst scanLoop.simps) (simp add: Let_def)
    next
      case dir: False
      from 1(2) [OF False refl refl refl dir]
      have "frame (tryFactories (map snd (actionFactories d)) (fst (last fileQueue)) (snd (last fileQueue)) d)
              (scanLoop (butlast fileQueue) (tryFactories (map snd (actionFactories d)) (fst (last fileQueue)) (snd (last fileQueue)) d))" .
      from frame_trans [OF frame_tryFactories this] False dir show ?thesis
        by (subst scanLoop.simps) (simp add: Let_def)
    qed
  qed
qed

lemma frame_scanForActions: "frame d (scanForActions s t d)"
proof -
  have "frame d (d\<lparr>trace := trace d @ [Scan s t]\<rparr>)" by (simp add: frame_def)
  from frame_trans [OF this frame_scanLoop] show ?thesis by (simp add: scanForActions_def)
qed

lemma frame_scanOutputs: "frame d (scanOutputs os d)"
proof (induction os arbitrary: d)
  case Nil
  show ?case by simp
next
  case (Cons out os)
  from frame_trans [OF frame_scanForActions Cons] show ?case by simp
qed

lemma frame_unblockLoop: "frame d (unblockLoop eid ws d)"
proof (induction ws arbitrary: d)
  case Nil
  show ?case by simp
next
  case (Cons w ws)
  show ?case
  proof (cases "heap d w")
    case None
    with Cons show ?thesis by simp
  next
    case (Some b)
    have step: "frame d d1 \<Longrightarrow> frame d (unblockLoop eid ws d1)" for d1
      using frame_trans [OF _ Cons] .
    let ?d1 = "d\<lparr>heap := (heap d)(w \<mapsto> b\<lparr>missingDependencies :=
                   AList.delete eid (missingDependencies b)\<rparr>),
                 trace := trace d @ [Unblock eid w]\<rparr>"
    let ?d2 = "?d1\<lparr>blockedActionPtrs := removeAll w (blockedActionPtrs ?d1),
                   pendingActions := pendingActions ?d1 @ [w]\<rparr>"
    have f: "frame d ?d1" "frame d ?d2" by (simp_all add: frame_def)
    have "frame d (unblockLoop eid ws ?d1)" "frame d (unblockLoop eid ws ?d2)"
      by (rule step [OF f(1)], rule step [OF f(2)])
    then show ?thesis
      by (cases "AList.delete eid (missingDependencies b) = [] \<and> w \<in> set (blockedActionPtrs d)")
         (use Some in \<open>auto simp: Let_def\<close>)
  qed
qed

lemma frame_unblockBlockedActions: "frame d (unblockBlockedActions eid d)"
proof -
  have "frame d1 (d1\<lparr>blockedActions := x\<rparr>)" for d1 x by (simp add: frame_def)
  from frame_trans [OF frame_unblockLoop this] show ?thesis
    by (simp add: unblockBlockedActions_def Let_def)
qed

lemma frame_fireLoop: "frame d (fireLoop eid f fs d)"
proof (induction fs arbitrary: d)
  case Nil
  show ?case by simp
next
  case (Cons factory fs)
  have t: "frame d (d\<lparr>trace := trace d @ [Trigger eid f]\<rparr>)" by (simp add: frame_def)
  show ?case
  proof (cases "tryMakeAction_entity factory eid f")
    case None
    from frame_trans [OF t Cons] None show ?thesis by (simp add: Let_def)
  next
    case (Some act)
    from frame_trans [OF frame_trans [OF t frame_queueNewAction] Cons] Some
    show ?thesis by (simp add: Let_def)
  qed
qed

lemma frame_registerEntity: "frame d (registerEntity f eid d)"
proof -
  have "frame d (d\<lparr>entityMap := (entityMap d)(eid \<mapsto> f)\<rparr>)" by (simp add: frame_def)
  from frame_trans [OF frame_trans [OF this frame_unblockBlockedActions] frame_fireLoop]
  show ?thesis by (simp add: registerEntity_def fireTriggers_def)
qed

lemma frame_registerEntities: "frame d (registerEntities f es d)"
proof (induction es arbitrary: d)
  case Nil
  show ?case by simp
next
  case (Cons e es)
  from frame_trans [OF frame_registerEntity Cons] show ?case by simp
qed

lemma frame_registerProviders: "frame d (registerProviders ps d)"
proof (induction ps arbitrary: d)
  case Nil
  show ?case by simp
next
  case (Cons p ps)
  have "frame d (d\<lparr>filePtrs := filePtrs d @ [pfile p]\<rparr>)" by (simp add: frame_def)
  from frame_trans [OF frame_trans [OF this frame_registerEntities] Cons] show ?case by simp
qed

lemma Inv0_nextPtr_irrelevant [simp]:
  "Inv0 F (d\<lparr>actionFactories := x\<rparr>) = Inv0 F d" "Inv0 F (d\<lparr>triggers := y\<rparr>) = Inv0 F d"
  by (simp_all add: Inv0_def cleanAt_def idleAt_def finishedAt_def)

lemma Inv0_cong:
  assumes "pendingActions d' = pendingActions d" "blockedActionPtrs d' = blockedActionPtrs d"
    "heap d' = heap d" "nextPtr d' = nextPtr d" "trace d' = trace d"
  shows "Inv0 F d' = Inv0 F d"
  using assms by (simp add: Inv0_def cleanAt_def idleAt_def finishedAt_def)

lemma Inv0_start:
  assumes inv: "Inv0 F d" and ne: "pendingActions d \<noteq> []"
    and a: "heap d (last (pendingActions d)) = Some a"
  shows "Inv0 F (ActionDriver_start (last (pendingActions d)) a
           (d\<lparr>pendingActions := butlast (pendingActions d), activeActions := acts\<rparr>))"
proof -
  let ?p = "last (pendingActions d)"
  from ne have mem: "?p \<in> set (pendingActions d)" by simp
  with inv have "cleanAt d ?p" by (simp add: Inv0_def)
  with a have cl: "clean a" by (simp add: cleanAt_def)
  have nF: "?p \<notin> F"
    using Inv0_finished_not_queued(1) [OF inv, of ?p] mem by blast
  have nb: "?p \<notin> set (blockedActionPtrs d)"
    using inv mem by (auto simp: Inv0_def)
  from inv have "distinct (pendingActions d)" by (simp add: Inv0_def)
  with ne have "distinct (butlast (pendingActions d) @ [?p])" by simp
  then have nbl: "?p \<notin> set (butlast (pendingActions d))" and dbl: "distinct (butlast (pendingActions d))"
    by simp_all
  have sub: "set (butlast (pendingActions d)) \<subseteq> set (pendingActions d)"
    by (auto dest: in_set_butlastD)
  let ?d1 = "d\<lparr>pendingActions := butlast (pendingActions d)\<rparr>"
  have d1: "Inv0 F ?d1"
    using inv dbl sub unfolding Inv0_def
    by (auto simp: cleanAt_def idleAt_def finishedAt_def)
  let ?a1 = "a\<lparr>state := RUNNING, dashboardTask := setState Dashboard_RUNNING (dashboardTask a)\<rparr>"
  have d2: "Inv0 F (?d1\<lparr>heap := (heap ?d1)(?p \<mapsto> ?a1)\<rparr>)"
    using d1 by (rule Inv0_heap_upd_free [where a = a]) (use nbl nb nF a in simp_all)
  have "Inv0 F ((?d1\<lparr>heap := (heap ?d1)(?p \<mapsto> ?a1)\<rparr>)\<lparr>trace := trace (?d1\<lparr>heap := (heap ?d1)(?p \<mapsto> ?a1)\<rparr>) @ [Start ?p a]\<rparr>)"
    using d2 by (rule Inv0_trace) (simp add: startsClean_def cl)
  also have "?this = Inv0 F (ActionDriver_start ?p a
           (d\<lparr>pendingActions := butlast (pendingActions d), activeActions := acts\<rparr>))"
    by (rule Inv0_cong [symmetric]) (simp_all add: ActionDriver_start_def)
  finally show ?thesis .
qed

lemma Inv0_pop_dangling:
  assumes inv: "Inv0 F d" and ne: "pendingActions d \<noteq> []"
    and a: "heap d (last (pendingActions d)) = None"
  shows "Inv0 F (d\<lparr>pendingActions := butlast (pendingActions d), activeActions := acts\<rparr>)"
proof -
  from ne have "last (pendingActions d) \<in> set (pendingActions d)" by simp
  with inv have "cleanAt d (last (pendingActions d))" by (simp add: Inv0_def)
  with a show ?thesis by (simp add: cleanAt_def)
qed

lemma Inv0_startSomeActions: "Inv0 F d \<Longrightarrow> Inv0 F (startSomeActions d)"
proof (induction d rule: startSomeActions.induct)
  case (1 d)
  show ?case
  proof (cases "int (length (activeActions d)) < maxConcurrentActions d \<and> pendingActions d \<noteq> []")
    case False
    with 1(3) show ?thesis by (subst startSomeActions.simps) auto
  next
    case True
    let ?p = "last (pendingActions d)"
    let ?d1 = "d\<lparr>pendingActions := butlast (pendingActions d), activeActions := activeActions d @ [?p]\<rparr>"
    show ?thesis
    proof (cases "heap d ?p")
      case None
      have "Inv0 F ?d1" using 1(3) True None by (intro Inv0_pop_dangling) simp_all
      from 1(1) [OF True refl refl _ this] None True show ?thesis
        by (subst startSomeActions.simps) (simp add: Let_def)
    next
      case (Some a)
      have "Inv0 F (ActionDriver_start ?p a ?d1)"
        using 1(3) True Some by (intro Inv0_start) simp_all
      from 1(2) [OF True refl refl _ this] Some True show ?thesis
        by (subst startSomeActions.simps) (simp add: Let_def)
    qed
  qed
qed

lemma dones_startSomeActions:
  "filter isDone (eventQueue (startSomeActions d)) = filter isDone (eventQueue d)"
proof (induction d rule: startSomeActions.induct)
  case (1 d)
  show ?case
  proof (cases "int (length (activeActions d)) < maxConcurrentActions d \<and> pendingActions d \<noteq> []")
    case False
    then show ?thesis by (subst startSomeActions.simps) auto
  next
    case True
    let ?p = "last (pendingActions d)"
    let ?d1 = "d\<lparr>pendingActions := butlast (pendingActions d), activeActions := activeActions d @ [?p]\<rparr>"
    show ?thesis
    proof (cases "heap d ?p")
      case None
      from 1(1) [OF True refl refl] None True show ?thesis
        by (subst startSomeActions.simps) (simp add: Let_def)
    next
      case (Some a)
      from 1(2) [OF True refl refl, of a] Some True show ?thesis
        by (subst startSomeActions.simps) (simp add: Let_def ActionDriver_start_def)
    qed
  qed
qed

lemma in_doneSet [simp]: "p \<in> doneSet d \<longleftrightarrow> DoneCallback p \<in> set (eventQueue d)"
  by (simp add: doneSet_def)

lemma Inv0_insert: "Inv0 F d \<Longrightarrow> finishedAt d this \<Longrightarrow> Inv0 (insert this F) d"
  by (simp add: Inv0_def)

lemma Inv_running_free:
  assumes inv: "Inv d" and a: "heap d this = Some a" and r: "state a = RUNNING"
  shows "this \<notin> doneSet d" "this \<notin> set (pendingActions d)" "this \<notin> set (blockedActionPtrs d)"
proof -
  from inv have i0: "Inv0 (doneSet d) d" by (simp add: Inv_def)
  show "this \<notin> doneSet d"
  proof
    assume "this \<in> doneSet d"
    with i0 have "finishedAt d this" unfolding Inv0_def by blast
    with a r show False by (simp add: finishedAt_def)
  qed
  show "this \<notin> set (pendingActions d)"
  proof
    assume "this \<in> set (pendingActions d)"
    with i0 have "cleanAt d this" unfolding Inv0_def by blast
    with a r show False by (simp add: cleanAt_def clean_def)
  qed
  show "this \<notin> set (blockedActionPtrs d)"
  proof
    assume "this \<in> set (blockedActionPtrs d)"
    with i0 have "idleAt d this" unfolding Inv0_def by blast
    with a r show False by (simp add: idleAt_def)
  qed
qed

lemma Inv_heap_running:
  assumes inv: "Inv d" and a: "heap d this = Some a" and r: "state a = RUNNING"
  shows "Inv (d\<lparr>heap := (heap d)(this \<mapsto> a')\<rparr>)"
proof -
  from inv have i0: "Inv0 (doneSet d) d" and dist: "distinct (filter isDone (eventQueue d))"
    by (simp_all add: Inv_def)
  note free = Inv_running_free [OF inv a r]
  have "Inv0 (doneSet d) (d\<lparr>heap := (heap d)(this \<mapsto> a')\<rparr>)"
    using i0 free(2,3,1) a by (rule Inv0_heap_upd_free)
  moreover have "doneSet (d\<lparr>heap := (heap d)(this \<mapsto> a')\<rparr>) = doneSet d"
    by (simp add: doneSet_def)
  ultimately show ?thesis using dist by (simp add: Inv_def)
qed

lemma Inv_finish:
  assumes inv: "Inv d" and a: "heap d this = Some a" and r: "state a = RUNNING"
    and f: "state a' \<noteq> PENDING" "state a' \<noteq> RUNNING"
  shows "Inv (queueDoneCallback this (d\<lparr>heap := (heap d)(this \<mapsto> a')\<rparr>))"
proof -
  let ?d1 = "d\<lparr>heap := (heap d)(this \<mapsto> a')\<rparr>"
  from inv have dist: "distinct (filter isDone (eventQueue d))" by (simp add: Inv_def)
  note free = Inv_running_free [OF inv a r]
  have "Inv ?d1" using inv a r by (rule Inv_heap_running)
  then have "Inv0 (doneSet d) ?d1" by (simp add: Inv_def doneSet_def)
  moreover have "finishedAt ?d1 this" using f by (simp add: finishedAt_def)
  ultimately have "Inv0 (insert this (doneSet d)) ?d1" by (rule Inv0_insert)
  moreover have "doneSet (queueDoneCallback this ?d1) = insert this (doneSet d)"
    by (auto simp: doneSet_def queueDoneCallback_def)
  moreover have "Inv0 F (queueDoneCallback this ?d1) = Inv0 F ?d1" for F
    by (rule Inv0_cong) (simp_all add: queueDoneCallback_def)
  moreover have "distinct (filter isDone (eventQueue (queueDoneCallback this ?d1)))"
    using dist free(1) by (simp add: queueDoneCallback_def)
  ultimately show ?thesis by (simp add: Inv_def)
qed

lemma Inv_task:
  assumes inv: "Inv d" and a: "heap d this = Some a"
  shows "Inv (d\<lparr>heap := (heap d)(this \<mapsto> a\<lparr>dashboardTask := t\<rparr>)\<rparr>)"
proof -
  from inv have i0: "Inv0 (doneSet d) d" and dist: "distinct (filter isDone (eventQueue d))"
    by (simp_all add: Inv_def)
  have "Inv0 (doneSet d) (d\<lparr>heap := (heap d)(this \<mapsto> a\<lparr>dashboardTask := t\<rparr>)\<rparr>)"
    using i0 a by (rule Inv0_heap_upd) simp_all
  moreover have "doneSet (d\<lparr>heap := (heap d)(this \<mapsto> a\<lparr>dashboardTask := t\<rparr>)\<rparr>) = doneSet d"
    by (simp add: doneSet_def)
  ultimately show ?thesis using dist by (simp add: Inv_def)
qed

lemma Inv_contextCall:
  assumes inv: "Inv d" and a: "heap d this = Some a"
  shows "Inv (contextCall this a c d)"
proof (cases "state a = RUNNING")
  case False
  with inv show ?thesis
    by (cases c)
       (simp_all add: findProvider_def findOptionalProvider_def provide_def log_def
         newOutput_def success_def passed_def failed_def ensureRunning_def)
next
  case True
  note hr = Inv_heap_running [OF inv a True]
  note fin = Inv_finish [OF inv a True]
  show ?thesis
  proof (cases c)
    case (FindProvider eid title)
    with True inv hr show ?thesis
      by (simp add: findProvider_def findOptionalProvider_def ensureRunning_def)
  next
    case (FindOptionalProvider eid)
    with True inv show ?thesis
      by (simp add: findOptionalProvider_def ensureRunning_def)
  next
    case (Provide f ents)
    with True hr show ?thesis by (simp add: provide_def ensureRunning_def)
  next
    case (Log msg)
    with True hr show ?thesis by (simp add: log_def ensureRunning_def)
  next
    case (NewOutput b)
    with True hr show ?thesis by (simp add: newOutput_def ensureRunning_def Let_def)
  next
    case Success
    with True inv fin [of "a\<lparr>state := SUCCEEDED\<rparr>"] show ?thesis
      by (simp add: success_def ensureRunning_def)
  next
    case Passed
    with True inv fin [of "a\<lparr>state := PASSED\<rparr>"] show ?thesis
      by (simp add: passed_def ensureRunning_def)
  next
    case Failed
    with True fin [of "a\<lparr>state := FAILED\<rparr>"] show ?thesis
      by (simp add: failed_def ensureRunning_def)
  qed
qed

lemma Inv_threw:
  assumes inv: "Inv d" and a: "heap d this = Some a"
  shows "Inv (let a1 = a\<lparr>dashboardTask := t\<rparr>; d1 = d\<lparr>heap := (heap d)(this \<mapsto> a1)\<rparr>
              in if state a1 = RUNNING
                 then (case failed this a1 d1 of Inl e \<Rightarrow> d1 | Inr d2 \<Rightarrow> d2)
                 else d1)"
proof -
  let ?a1 = "a\<lparr>dashboardTask := t\<rparr>"
  let ?d1 = "d\<lparr>heap := (heap d)(this \<mapsto> ?a1)\<rparr>"
  have d1: "Inv ?d1" using inv a by (rule Inv_task)
  show ?thesis
  proof (cases "state a = RUNNING")
    case False
    with d1 show ?thesis by (simp add: Let_def)
  next
    case True
    have "Inv (queueDoneCallback this (?d1\<lparr>heap := (heap ?d1)(this \<mapsto> ?a1\<lparr>state := FAILED\<rparr>)\<rparr>))"
      using d1 by (rule Inv_finish [where a = ?a1]) (simp_all add: True)
    with True show ?thesis by (simp add: Let_def failed_def ensureRunning_def)
  qed
qed

lemma frame_eventQueue: "frame d d' \<Longrightarrow> eventQueue d' = eventQueue d"
  by (simp add: frame_def)

lemma dones_cancel:
  "filter (\<lambda>c. c \<noteq> StartCallback t \<and> isDone c) q = filter isDone q"
proof -
  have "(c \<noteq> StartCallback t \<and> isDone c) = isDone c" for c by (cases c) auto
  then show ?thesis by simp
qed

lemma dones_returned:
  "filter isDone (eventQueue (returned p d)) = filter isDone (eventQueue d)"
proof (cases "heap d p")
  case None
  then show ?thesis by (simp add: returned_def)
next
  case (Some a)
  have fr: "eventQueue (scanOutputs os (registerProviders ps d1)) = eventQueue d1" for os ps d1
    by (rule frame_eventQueue [OF frame_trans [OF frame_registerProviders frame_scanOutputs]])
  show ?thesis
    using Some
    by (simp add: returned_def Let_def cancelAll_def ActionDriver_dtor_def dones_cancel fr)
qed

lemma Inv_runDone:
  assumes inv: "Inv d" and q: "DoneCallback p \<in> set (eventQueue d)"
  shows "Inv (runCallback (DoneCallback p) (d\<lparr>eventQueue := remove1 (DoneCallback p) (eventQueue d)\<rparr>))"
proof -
  let ?d1 = "d\<lparr>eventQueue := remove1 (DoneCallback p) (eventQueue d)\<rparr>"
  from inv have i0: "Inv0 (doneSet d) d" and dist: "distinct (filter isDone (eventQueue d))"
    by (simp_all add: Inv_def)
  have dq: "filter isDone (remove1 (DoneCallback p) (eventQueue d))
      = remove1 (DoneCallback p) (filter isDone (eventQueue d))"
    by (simp add: filter_remove1)
  have dist1: "distinct (filter isDone (eventQueue ?d1))"
    using dist by (simp add: dq)
  have "set (remove1 (DoneCallback p) (filter isDone (eventQueue d)))
      = set (filter isDone (eventQueue d)) - {DoneCallback p}"
    using dist by (rule set_remove1_eq)
  then have ds: "doneSet ?d1 = doneSet d - {p}"
    unfolding doneSet_def by (simp add: dq) blast
  have "Inv0 (doneSet d) ?d1" using i0 by simp
  then have "Inv0 (insert p (doneSet ?d1)) ?d1"
    by (rule Inv0_mono) (use q ds in auto)
  moreover have "p \<notin> doneSet ?d1" unfolding ds by simp
  ultimately have r: "Inv0 (doneSet ?d1) (returned p ?d1)" by (rule Inv0_returned)
  then have "Inv0 (doneSet ?d1) (startSomeActions (returned p ?d1))"
    by (rule Inv0_startSomeActions)
  moreover have "filter isDone (eventQueue (startSomeActions (returned p ?d1)))
      = filter isDone (eventQueue ?d1)"
    by (simp add: dones_startSomeActions dones_returned)
  ultimately show ?thesis
    using dist1 by (simp add: Inv_def doneSet_def)
qed

lemma Inv_exec: "Inv d \<Longrightarrow> Inv (exec e d)"
proof (cases e)
  case (AddActionFactory name factory)
  assume inv: "Inv d"
  have "Inv0 F (addActionFactory name factory d) = Inv0 F d" for F
    by (rule Inv0_cong) (simp_all add: addActionFactory_def)
  moreover have "eventQueue (addActionFactory name factory d) = eventQueue d"
    by (simp add: addActionFactory_def)
  ultimately show ?thesis
    using inv by (simp add: AddActionFactory Inv_def doneSet_def)
next
  case DriverStart
  assume inv: "Inv d"
  let ?d1 = "scanForActions (src d) (tmp d) d"
  have eq: "eventQueue ?d1 = eventQueue d" by (rule frame_eventQueue [OF frame_scanForActions])
  from inv have "Inv0 (doneSet d) ?d1" by (simp add: Inv_def Inv0_scanForActions)
  then have "Inv0 (doneSet d) (startSomeActions ?d1)" by (rule Inv0_startSomeActions)
  moreover have "filter isDone (eventQueue (startSomeActions ?d1)) = filter isDone (eventQueue d)"
    by (simp add: dones_startSomeActions eq)
  ultimately show ?thesis
    using inv by (simp add: DriverStart Driver_start_def Inv_def doneSet_def)
next
  case (Call this c)
  assume "Inv d"
  then show ?thesis
    by (simp add: Call Inv_contextCall split: option.splits)
next
  case (ThrewException this what)
  assume inv: "Inv d"
  show ?thesis
  proof (cases "heap d this")
    case None
    with inv show ?thesis by (simp add: ThrewException)
  next
    case (Some a)
    have "exec e d = threwException this a what d" by (simp add: ThrewException Some)
    also have "Inv \<dots>" unfolding threwException_def by (rule Inv_threw [OF inv Some])
    finally show ?thesis .
  qed
next
  case (ThrewUnknownException this)
  assume inv: "Inv d"
  show ?thesis
  proof (cases "heap d this")
    case None
    with inv show ?thesis by (simp add: ThrewUnknownException)
  next
    case (Some a)
    have "exec e d = threwUnknownException this a d" by (simp add: ThrewUnknownException Some)
    also have "Inv \<dots>" unfolding threwUnknownException_def by (rule Inv_threw [OF inv Some])
    finally show ?thesis .
  qed
next
  case (RunCallback cb)
  assume inv: "Inv d"
  show ?thesis
  proof (cases cb)
    case (StartCallback p)
    have "filter isDone (remove1 (StartCallback p) (eventQueue d)) = filter isDone (eventQueue d)"
      by (simp add: filter_remove1 remove1_idem)
    with inv show ?thesis
      by (simp add: RunCallback StartCallback Inv_def doneSet_def)
  next
    case (DoneCallback p)
    with inv Inv_runDone [of d p] show ?thesis
      by (simp add: RunCallback)
  qed
qed

lemma Inv_run: "Inv d \<Longrightarrow> Inv (run es d)"
  by (induction es arbitrary: d) (simp_all add: Inv_exec)

lemma Inv_ctor: "Inv (Driver_ctor s t m)"
  by (simp add: Inv_def Inv0_def doneSet_def Driver_ctor_def)

lemma run_append: "run (xs @ ys) d = run ys (run xs d)"
  by (induction xs arbitrary: d) simp_all

lemma frame_bounded: "frame d d' \<Longrightarrow> bounded d' = bounded d"
  by (simp add: frame_def bounded_def)

lemma frame_max: "frame d d' \<Longrightarrow> maxConcurrentActions d' = maxConcurrentActions d"
  by (simp add: frame_def)

lemma frame_active: "frame d d' \<Longrightarrow> activeActions d' = activeActions d"
  by (simp add: frame_def)

lemma sched_startSomeActions:
  "maxConcurrentActions (startSomeActions d) = maxConcurrentActions d
   \<and> (bounded d \<longrightarrow> bounded (startSomeActions d))"
proof (induction d rule: startSomeActions.induct)
  case (1 d)
  show ?case
  proof (cases "int (length (activeActions d)) < maxConcurrentActions d \<and> pendingActions d \<noteq> []")
    case False
    then show ?thesis by (subst (1 2) startSomeActions.simps) auto
  next
    case True
    let ?p = "last (pendingActions d)"
    let ?d1 = "d\<lparr>pendingActions := butlast (pendingActions d), activeActions := activeActions d @ [?p]\<rparr>"
    have b1: "bounded ?d1" using True by (simp add: bounded_def)
    show ?thesis
    proof (cases "heap d ?p")
      case None
      from 1(1) [OF True refl refl] None True b1 show ?thesis
        by (subst (1 2) startSomeActions.simps) (simp add: Let_def)
    next
      case (Some a)
      have "bounded (ActionDriver_start ?p a ?d1)"
        using b1 by (simp add: bounded_def ActionDriver_start_def)
      moreover have "maxConcurrentActions (ActionDriver_start ?p a ?d1) = maxConcurrentActions d"
        by (simp add: ActionDriver_start_def)
      ultimately show ?thesis
        using 1(2) [OF True refl refl, of a] Some True
        by (subst (1 2) startSomeActions.simps) (simp add: Let_def)
    qed
  qed
qed

lemma sched_returned:
  "maxConcurrentActions (returned p d) = maxConcurrentActions d
   \<and> activeActions (returned p d)
       = (if heap d p = None then activeActions d else remove1 p (activeActions d))"
proof (cases "heap d p")
  case None
  then show ?thesis by (simp add: returned_def)
next
  case (Some a)
  have fr: "frame d1 (scanOutputs os (registerProviders ps d1))" for os ps d1
    by (rule frame_trans [OF frame_registerProviders frame_scanOutputs])
  show ?thesis
    using Some
    by (simp add: returned_def Let_def cancelAll_def ActionDriver_dtor_def
        frame_max [OF fr] frame_active [OF fr])
qed

lemma sched_contextCall:
  "maxConcurrentActions (contextCall this a c d) = maxConcurrentActions d
   \<and> activeActions (contextCall this a c d) = activeActions d"
  by (cases c)
     (simp_all add: findProvider_def findOptionalProvider_def provide_def log_def
       newOutput_def success_def passed_def failed_def ensureRunning_def Let_def
       queueDoneCallback_def)

lemma sched_threw:
  "maxConcurrentActions (threwException this a what d) = maxConcurrentActions d
   \<and> activeActions (threwException this a what d) = activeActions d
   \<and> maxConcurrentActions (threwUnknownException this a d) = maxConcurrentActions d
   \<and> activeActions (threwUnknownException this a d) = activeActions d"
  by (simp add: threwException_def threwUnknownException_def Let_def failed_def
      ensureRunning_def queueDoneCallback_def)

lemma sched_exec:
  "maxConcurrentActions (exec e d) = maxConcurrentActions d
   \<and> (bounded d \<longrightarrow> bounded (exec e d))"
proof (cases e)
  case (AddActionFactory name factory)
  then show ?thesis by (simp add: addActionFactory_def bounded_def)
next
  case DriverStart
  have "bounded (scanForActions (src d) (tmp d) d) = bounded d"
    by (rule frame_bounded [OF frame_scanForActions])
  moreover have "maxConcurrentActions (scanForActions (src d) (tmp d) d) = maxConcurrentActions d"
    by (rule frame_max [OF frame_scanForActions])
  ultimately show ?thesis
    using sched_startSomeActions [of "scanForActions (src d) (tmp d) d"]
    by (simp add: DriverStart Driver_start_def)
next
  case (Call this c)
  then show ?thesis
    by (simp add: bounded_def sched_contextCall split: option.splits)
next
  case (ThrewException this what)
  then show ?thesis
    by (simp add: bounded_def sched_threw split: option.splits)
next
  case (ThrewUnknownException this)
  then show ?thesis
    by (simp add: bounded_def sched_threw split: option.splits)
next
  case (RunCallback cb)
  show ?thesis
  proof (cases cb)
    case (StartCallback p)
    then show ?thesis by (simp add: RunCallback bounded_def)
  next
    case (DoneCallback p)
    let ?d1 = "d\<lparr>eventQueue := remove1 cb (eventQueue d)\<rparr>"
    have len: "length (remove1 p xs) \<le> length xs" for xs :: "ActionDriverPtr list"
      by (induction xs) auto
    have "bounded d \<Longrightarrow> bounded (returned p ?d1)"
      using sched_returned [of p ?d1] len [of "activeActions d"]
      by (auto simp: bounded_def)
    moreover have "maxConcurrentActions (returned p ?d1) = maxConcurrentActions d"
      using sched_returned [of p ?d1] by simp
    ultimately show ?thesis
      using sched_startSomeActions [of "returned p ?d1"]
      by (auto simp: RunCallback DoneCallback)
  qed
qed

lemma sched_run:
  "maxConcurrentActions (run es d) = maxConcurrentActions d
   \<and> (bounded d \<longrightarrow> bounded (run es d))"
proof (induction es arbitrary: d)
  case Nil
  show ?case by simp
next
  case (Cons e es)
  from Cons [of "exec e d"] sched_exec [of e d] show ?case by simp
qed

lemma errorOutBlocked_keeps:
  "heap d p = Some a \<Longrightarrow> taskState (dashboardTask a) = Dashboard_FAILED \<Longrightarrow>
     \<exists>a'. heap (errorOutBlocked ps d) p = Some a' \<and> taskState (dashboardTask a') = Dashboard_FAILED"
proof (induction ps arbitrary: d a)
  case Nil
  then show ?case by simp
next
  case (Cons q ps)
  show ?case
  proof (cases "heap d q")
    case None
    with Cons show ?thesis by simp
  next
    case (Some b)
    let ?d1 = "d\<lparr>heap := (heap d)(q \<mapsto> b\<lparr>dashboardTask := setState Dashboard_FAILED (dashboardTask b)\<rparr>)\<rparr>"
    have "\<exists>a1. heap ?d1 p = Some a1 \<and> taskState (dashboardTask a1) = Dashboard_FAILED"
      using Cons.prems by (simp add: setState_def)
    then obtain a1 where "heap ?d1 p = Some a1" "taskState (dashboardTask a1) = Dashboard_FAILED"
      by blast
    from Cons.IH [OF this] Some show ?thesis by simp
  qed
qed

lemma errorOutBlocked_failed:
  "p \<in> set ps \<Longrightarrow> heap d p = Some a \<Longrightarrow>
     \<exists>a'. heap (errorOutBlocked ps d) p = Some a' \<and> taskState (dashboardTask a') = Dashboard_FAILED"
proof (induction ps arbitrary: d a)
  case Nil
  then show ?case by simp
next
  case (Cons q ps)
  show ?case
  proof (cases "heap d q")
    case None
    with Cons.prems have "p \<in> set ps" by auto
    from Cons.IH [OF this Cons.prems(2)] None show ?thesis by simp
  next
    case (Some b)
    let ?d1 = "d\<lparr>heap := (heap d)(q \<mapsto> b\<lparr>dashboardTask := setState Dashboard_FAILED (dashboardTask b)\<rparr>)\<rparr>"
    show ?thesis
    proof (cases "p = q")
      case True
      have "heap ?d1 p = Some (b\<lparr>dashboardTask := setState Dashboard_FAILED (dashboardTask b)\<rparr>)"
        using True by simp
      moreover have "taskState (dashboardTask (b\<lparr>dashboardTask := setState Dashboard_FAILED (dashboardTask b)\<rparr>)) = Dashboard_FAILED"
        by (simp add: setState_def)
      ultimately show ?thesis
        using errorOutBlocked_keeps [of ?d1 p _ ps] Some by simp
    next
      case False
      with Cons.prems have "p \<in> set ps" "heap ?d1 p = Some a" by auto
      from Cons.IH [OF this] Some show ?thesis by simp
    qed
  qed
qed

lemma Inv_blocked_live:
  assumes "Inv d" "p \<in> set (blockedActionPtrs d)"
  shows "\<exists>a. heap d p = Some a \<and> state a = PENDING \<and> provisions a = [] \<and> outputs a = []"
proof -
  from assms have "idleAt d p" unfolding Inv_def Inv0_def by blast
  then show ?thesis by (simp add: idleAt_def split: option.splits)
qed

lemma started_append [simp]: "started (xs @ ys) = started xs @ started ys"
  by (simp add: started_def)

lemma startSomeActions_lifo:
  assumes "\<forall>p\<in>set (pendingActions d). heap d p \<noteq> None"
  shows "started (trace (startSomeActions d))
           = started (trace d) @ take (freeSlots d) (rev (pendingActions d))
       \<and> activeActions (startSomeActions d)
           = activeActions d @ take (freeSlots d) (rev (pendingActions d))
       \<and> pendingActions (startSomeActions d)
           = rev (drop (freeSlots d) (rev (pendingActions d)))"
  using assms
proof (induction d rule: startSomeActions.induct)
  case (1 d)
  show ?case
  proof (cases "int (length (activeActions d)) < maxConcurrentActions d \<and> pendingActions d \<noteq> []")
    case False
    then have "freeSlots d = 0 \<or> pendingActions d = []" by (auto simp: freeSlots_def)
    with False show ?thesis by (subst (1 2 3) startSomeActions.simps) auto
  next
    case True
    let ?p = "last (pendingActions d)"
    let ?d1 = "d\<lparr>pendingActions := butlast (pendingActions d), activeActions := activeActions d @ [?p]\<rparr>"
    from True have mem: "?p \<in> set (pendingActions d)" by simp
    with 1(3) obtain a where a: "heap d ?p = Some a" by auto
    let ?d2 = "ActionDriver_start ?p a ?d1"
    have live: "\<forall>q\<in>set (pendingActions ?d2). heap ?d2 q \<noteq> None"
      using 1(3) by (auto simp: ActionDriver_start_def dest: in_set_butlastD)
    have fs: "freeSlots d = Suc (freeSlots ?d2)"
      using True by (simp add: freeSlots_def ActionDriver_start_def) arith
    have rv: "rev (pendingActions d) = ?p # rev (pendingActions ?d2)"
    proof -
      from True have "pendingActions d = butlast (pendingActions d) @ [?p]" by simp
      then have "rev (pendingActions d) = rev (butlast (pendingActions d) @ [?p])" by simp
      then show ?thesis by (simp add: ActionDriver_start_def)
    qed
    have tr: "started (trace ?d2) = started (trace d) @ [?p]"
      and ac: "activeActions ?d2 = activeActions d @ [?p]"
      by (simp_all add: ActionDriver_start_def started_def)
    have unf: "startSomeActions d = startSomeActions ?d2"
      using True a by (subst startSomeActions.simps) (simp add: Let_def)
    have a1: "heap ?d1 ?p = Some a" using a by simp
    from 1(2) [OF True refl refl a1 live]
    show ?thesis unfolding unf by (simp add: fs rv tr ac)
  qed
qed

lemma eraseMissing_idem [simp]: "eraseMissing eid (eraseMissing eid b) = eraseMissing eid b"
  by (simp add: eraseMissing_def delete_idem)

lemma unblockedBy_erase:
  assumes "heap d w0 = Some b" "heap d' = (heap d)(w0 \<mapsto> eraseMissing eid b)"
  shows "unblockedBy eid d' = unblockedBy eid d"
  using assms by (auto simp: unblockedBy_def eraseMissing_def delete_idem fun_eq_iff)

lemma unblockLoop_step:
  assumes "heap d w = Some b"
  shows "unblockLoop eid (w # ws) d =
     unblockLoop eid ws
       (if unblockedBy eid d w \<and> w \<in> set (blockedActionPtrs d)
        then d\<lparr>heap := (heap d)(w \<mapsto> eraseMissing eid b), trace := trace d @ [Unblock eid w],
               blockedActionPtrs := removeAll w (blockedActionPtrs d),
               pendingActions := pendingActions d @ [w]\<rparr>
        else d\<lparr>heap := (heap d)(w \<mapsto> eraseMissing eid b), trace := trace d @ [Unblock eid w]\<rparr>)"
  using assms by (simp add: Let_def unblockedBy_def eraseMissing_def)

lemma unblockLoop_heap:
  "heap (unblockLoop eid ws d) w
     = (if w \<in> set ws then map_option (eraseMissing eid) (heap d w) else heap d w)"
proof (induction ws arbitrary: d)
  case Nil
  show ?case by simp
next
  case (Cons w0 ws)
  show ?case
  proof (cases "heap d w0")
    case None
    with Cons [of d] show ?thesis by auto
  next
    case (Some b)
    show ?thesis
      unfolding unblockLoop_step [OF Some]
      by (simp add: Cons Some)
  qed
qed

lemma filter_removeAll_promoted:
  "Q w0 \<Longrightarrow>
     filter (\<lambda>w. \<not> (w \<in> set ws \<and> Q w)) (removeAll w0 xs)
       = filter (\<lambda>w. \<not> (w \<in> set (w0 # ws) \<and> Q w)) xs"
  by (induction xs) auto

lemma unblockLoop_blocked:
  "blockedActionPtrs (unblockLoop eid ws d)
     = filter (\<lambda>w. \<not> (w \<in> set ws \<and> unblockedBy eid d w)) (blockedActionPtrs d)"
proof (induction ws arbitrary: d)
  case Nil
  show ?case by simp
next
  case (Cons w0 ws)
  show ?case
  proof (cases "heap d w0")
    case None
    then have "\<not> unblockedBy eid d w0" by (simp add: unblockedBy_def)
    then have "filter (\<lambda>w. \<not> (w \<in> set ws \<and> unblockedBy eid d w)) (blockedActionPtrs d)
          = filter (\<lambda>w. \<not> (w \<in> set (w0 # ws) \<and> unblockedBy eid d w)) (blockedActionPtrs d)"
      by (auto intro!: filter_cong)
    with None Cons [of d] show ?thesis by simp
  next
    case (Some b)
    let ?d1 = "d\<lparr>heap := (heap d)(w0 \<mapsto> eraseMissing eid b), trace := trace d @ [Unblock eid w0]\<rparr>"
    let ?d2 = "?d1\<lparr>blockedActionPtrs := removeAll w0 (blockedActionPtrs d),
                   pendingActions := pendingActions d @ [w0]\<rparr>"
    have ub1: "unblockedBy eid ?d1 = unblockedBy eid d"
      and ub2: "unblockedBy eid ?d2 = unblockedBy eid d"
      by (rule unblockedBy_erase [OF Some], simp)+
    show ?thesis
    proof (cases "unblockedBy eid d w0 \<and> w0 \<in> set (blockedActionPtrs d)")
      case True
      have "blockedActionPtrs (unblockLoop eid (w0 # ws) d) = blockedActionPtrs (unblockLoop eid ws ?d2)"
        unfolding unblockLoop_step [OF Some] using True by simp
      also have "\<dots> = filter (\<lambda>w. \<not> (w \<in> set ws \<and> unblockedBy eid d w))
                       (removeAll w0 (blockedActionPtrs d))"
        unfolding Cons ub2 by simp
      also have "\<dots> = filter (\<lambda>w. \<not> (w \<in> set (w0 # ws) \<and> unblockedBy eid d w)) (blockedActionPtrs d)"
        by (rule filter_removeAll_promoted [where Q = "unblockedBy eid d"]) (use True in simp)
      finally show ?thesis .
    next
      case False
      have "blockedActionPtrs (unblockLoop eid (w0 # ws) d) = blockedActionPtrs (unblockLoop eid ws ?d1)"
        unfolding unblockLoop_step [OF Some] by (simp only: False if_False)
      also have "\<dots> = filter (\<lambda>w. \<not> (w \<in> set ws \<and> unblockedBy eid d w)) (blockedActionPtrs d)"
        unfolding Cons ub1 by simp
      also have "\<dots> = filter (\<lambda>w. \<not> (w \<in> set (w0 # ws) \<and> unblockedBy eid d w)) (blockedActionPtrs d)"
        using False by (auto intro!: filter_cong)
      finally show ?thesis .
    qed
  qed
qed

lemma unblockLoop_pending:
  "\<exists>ps. pendingActions (unblockLoop eid ws d) = pendingActions d @ ps
      \<and> set ps = {w \<in> set ws. unblockedBy eid d w \<and> w \<in> set (blockedActionPtrs d)}"
proof (induction ws arbitrary: d)
  case Nil
  show ?case by simp
next
  case (Cons w0 ws)
  show ?case
  proof (cases "heap d w0")
    case None
    then have "\<not> unblockedBy eid d w0" by (simp add: unblockedBy_def)
    then have "{w \<in> set ws. unblockedBy eid d w \<and> w \<in> set (blockedActionPtrs d)}
        = {w \<in> set (w0 # ws). unblockedBy eid d w \<and> w \<in> set (blockedActionPtrs d)}"
      by auto
    with None Cons [of d] show ?thesis by simp
  next
    case (Some b)
    let ?d1 = "d\<lparr>heap := (heap d)(w0 \<mapsto> eraseMissing eid b), trace := trace d @ [Unblock eid w0]\<rparr>"
    let ?d2 = "?d1\<lparr>blockedActionPtrs := removeAll w0 (blockedActionPtrs d),
                   pendingActions := pendingActions d @ [w0]\<rparr>"
    have ub1: "unblockedBy eid ?d1 = unblockedBy eid d"
      and ub2: "unblockedBy eid ?d2 = unblockedBy eid d"
      by (rule unblockedBy_erase [OF Some], simp)+
    show ?thesis
    proof (cases "unblockedBy eid d w0 \<and> w0 \<in> set (blockedActionPtrs d)")
      case True
      from Cons [of ?d2] obtain ps where
        ps: "pendingActions (unblockLoop eid ws ?d2) = (pendingActions d @ [w0]) @ ps"
        "set ps = {w \<in> set ws. unblockedBy eid d w \<and> w \<in> set (removeAll w0 (blockedActionPtrs d))}"
        unfolding ub2 by auto
      have "pendingActions (unblockLoop eid (w0 # ws) d) = pendingActions d @ (w0 # ps)"
        unfolding unblockLoop_step [OF Some] using True ps(1) by simp
      moreover have "set (w0 # ps)
          = {w \<in> set (w0 # ws). unblockedBy eid d w \<and> w \<in> set (blockedActionPtrs d)}"
        using True ps(2) by auto
      ultimately show ?thesis by blast
    next
      case False
      from Cons [of ?d1] obtain ps where
        ps: "pendingActions (unblockLoop eid ws ?d1) = pendingActions d @ ps"
        "set ps = {w \<in> set ws. unblockedBy eid d w \<and> w \<in> set (blockedActionPtrs d)}"
        unfolding ub1 by auto
      have "pendingActions (unblockLoop eid (w0 # ws) d) = pendingActions d @ ps"
        unfolding unblockLoop_step [OF Some] by (simp only: False if_False ps(1))
      moreover have "set ps
          = {w \<in> set (w0 # ws). unblockedBy eid d w \<and> w \<in> set (blockedActionPtrs d)}"
        using False ps(2) by auto
      ultimately show ?thesis by blast
    qed
  qed
qed

lemma unblockLoop_blockedActions [simp]:
  "blockedActions (unblockLoop eid ws d) = blockedActions d"
proof (induction ws arbitrary: d)
  case Nil
  show ?case by simp
next
  case (Cons w0 ws)
  show ?case
  proof (cases "heap d w0")
    case None
    with Cons show ?thesis by simp
  next
    case (Some b)
    show ?thesis unfolding unblockLoop_step [OF Some] by (simp add: Cons)
  qed
qed

lemma queues_refl [simp]: "queues d d"
  by (simp add: queues_def)

lemma queues_trace [simp]: "queues d (d\<lparr>trace := x\<rparr>)"
  by (simp add: queues_def)

lemma queues_trans:
  assumes "queues d d1" "queues d1 d2"
  shows "queues d d2"
proof -
  from assms obtain ps qs where
    ps: "pendingActions d1 = pendingActions d @ ps" "\<forall>p\<in>set ps. nextPtr d \<le> p"
    and qs: "pendingActions d2 = pendingActions d1 @ qs" "\<forall>p\<in>set qs. nextPtr d1 \<le> p"
    unfolding queues_def by blast
  from assms have le: "nextPtr d \<le> nextPtr d1" by (simp add: queues_def)
  have "pendingActions d2 = pendingActions d @ (ps @ qs)" using ps qs by simp
  moreover have "\<forall>p\<in>set (ps @ qs). nextPtr d \<le> p" using ps qs le by auto
  ultimately have "\<exists>rs. pendingActions d2 = pendingActions d @ rs \<and> (\<forall>p\<in>set rs. nextPtr d \<le> p)"
    by blast
  moreover have "\<forall>p<nextPtr d. heap d2 p = heap d p"
    using assms le by (simp add: queues_def)
  ultimately show ?thesis using assms le by (simp add: queues_def)
qed

lemma queues_queueNewAction: "queues d (queueNewAction act f t d)"
  by (simp add: queues_def queueNewAction_def Let_def)

lemma queues_tryFactories: "queues d (tryFactories fs s t d)"
proof (induction fs arbitrary: d)
  case Nil
  show ?case by simp
next
  case (Cons factory fs)
  show ?case
  proof (cases "tryMakeAction factory s")
    case None
    with Cons show ?thesis by simp
  next
    case (Some act)
    from queues_trans [OF queues_queueNewAction Cons] Some show ?thesis by simp
  qed
qed

lemma queues_scanLoop: "queues d (scanLoop q d)"
proof (induction q d rule: scanLoop.induct)
  case (1 fileQueue d)
  show ?case
  proof (cases "fileQueue = []")
    case True
    then show ?thesis by (subst scanLoop.simps) simp
  next
    case False
    show ?thesis
    proof (cases "isDirectory (fst (last fileQueue))")
      case True
      with False 1 show ?thesis by (subst scanLoop.simps) (simp add: Let_def)
    next
      case dir: False
      from queues_trans [OF queues_tryFactories 1(2) [OF False refl refl refl dir]] False dir
      show ?thesis by (subst scanLoop.simps) (simp add: Let_def)
    qed
  qed
qed

lemma queues_scanForActions: "queues d (scanForActions s t d)"
  using queues_trans [OF queues_trace queues_scanLoop]
  by (simp add: scanForActions_def)

lemma queues_scanOutputs: "queues d (scanOutputs os d)"
proof (induction os arbitrary: d)
  case Nil
  show ?case by simp
next
  case (Cons out os)
  from queues_trans [OF queues_scanForActions Cons] show ?case by simp
qed

lemma queues_fireLoop: "queues d (fireLoop eid f fs d)"
proof (induction fs arbitrary: d)
  case Nil
  show ?case by simp
next
  case (Cons factory fs)
  show ?case
  proof (cases "tryMakeAction_entity factory eid f")
    case None
    from queues_trans [OF queues_trace Cons] None show ?thesis by (simp add: Let_def)
  next
    case (Some act)
    from queues_trans [OF queues_trans [OF queues_trace queues_queueNewAction] Cons] Some
    show ?thesis by (simp add: Let_def)
  qed
qed

lemma unblockLoop_untouched:
  "entityMap (unblockLoop eid ws d) = entityMap d \<and> filePtrs (unblockLoop eid ws d) = filePtrs d
   \<and> nextPtr (unblockLoop eid ws d) = nextPtr d"
proof (induction ws arbitrary: d)
  case Nil
  show ?case by simp
next
  case (Cons w0 ws)
  show ?case
  proof (cases "heap d w0")
    case None
    with Cons show ?thesis by simp
  next
    case (Some b)
    show ?thesis unfolding unblockLoop_step [OF Some] by (simp add: Cons)
  qed
qed

lemma registerEntity_entityMap:
  "entityMap (registerEntity f eid d) = (entityMap d)(eid \<mapsto> f)"
proof -
  have "queues d1 (fireTriggers eid f d1)" for d1
    unfolding fireTriggers_def by (rule queues_fireLoop)
  then have "entityMap (fireTriggers eid f d1) = entityMap d1" for d1
    by (simp add: queues_def)
  then show ?thesis
    by (simp add: registerEntity_def unblockBlockedActions_def Let_def unblockLoop_untouched)
qed

lemma registerEntities_entityMap:
  "entityMap (registerEntities f es d) = fold (\<lambda>e m. m(e \<mapsto> f)) es (entityMap d)"
  by (induction es arbitrary: d) (simp_all add: registerEntity_entityMap)

lemma fold_upd_lookup:
  "fold (\<lambda>e m. m(e \<mapsto> f)) es m eid = (if eid \<in> set es then Some f else m eid)"
  by (induction es arbitrary: m) auto

lemma registerProviders_entityMap_last:
  "entityMap (registerProviders ps d) eid =
     (case filter (\<lambda>p. eid \<in> set (entities p)) ps of
        [] \<Rightarrow> entityMap d eid
      | q # qs \<Rightarrow> Some (pfile (last (q # qs))))"
proof (induction ps arbitrary: d)
  case Nil
  show ?case by simp
next
  case (Cons p ps)
  let ?d1 = "registerEntities (pfile p) (entities p) (d\<lparr>filePtrs := filePtrs d @ [pfile p]\<rparr>)"
  have e1: "entityMap ?d1 eid = (if eid \<in> set (entities p) then Some (pfile p) else entityMap d eid)"
    by (simp add: registerEntities_entityMap fold_upd_lookup)
  show ?case
    by (simp add: Cons [of ?d1] e1 split: list.splits)
qed

lemma returned_commit:
  assumes "heap d this = Some a" "missingDependencies a = []"
    "state a = SUCCEEDED \<or> state a = PASSED"
  shows "returned this d =
     (let d3 = scanOutputs (outputs a) (registerProviders (provisions a)
                 (d\<lparr>activeActions := remove1 this (activeActions d),
                    heap := (heap d)(this \<mapsto> a\<lparr>dashboardTask := setState
                       (if state a = PASSED then Dashboard_PASSED else Dashboard_SUCCESS)
                       (dashboardTask a)\<rparr>)\<rparr>))
      in if this \<in> set (activeActions d) then ActionDriver_dtor this d3 else d3)"
  using assms by (simp add: returned_def Let_def)

lemma returned_commit_entityMap:
  assumes "heap d this = Some a" "missingDependencies a = []"
    "state a = SUCCEEDED \<or> state a = PASSED"
  shows "entityMap (returned this d) eid = entityMap (registerProviders (provisions a) d) eid"
proof -
  let ?d1 = "d\<lparr>activeActions := remove1 this (activeActions d),
                heap := (heap d)(this \<mapsto> a\<lparr>dashboardTask := setState
                   (if state a = PASSED then Dashboard_PASSED else Dashboard_SUCCESS)
                   (dashboardTask a)\<rparr>)\<rparr>"
  have so: "entityMap (scanOutputs os d1) = entityMap d1" for os d1
    using queues_scanOutputs [of d1 os] by (simp add: queues_def)
  have "entityMap (returned this d) = entityMap (registerProviders (provisions a) ?d1)"
    unfolding returned_commit [OF assms]
    by (simp add: Let_def ActionDriver_dtor_def cancelAll_def so)
  moreover have "entityMap (registerProviders (provisions a) ?d1) eid
      = entityMap (registerProviders (provisions a) d) eid"
    unfolding registerProviders_entityMap_last by (simp split: list.splits)
  ultimately show ?thesis by simp
qed

lemma registerEntity_effects:
  "blockedActions (registerEntity f eid d) = filter (\<lambda>e. fst e \<noteq> eid) (blockedActions d)
   \<and> blockedActionPtrs (registerEntity f eid d)
       = filter (\<lambda>w. \<not> (w \<in> set (waiters eid d) \<and> unblockedBy eid d w)) (blockedActionPtrs d)
   \<and> activeActions (registerEntity f eid d) = activeActions d
   \<and> (\<forall>p<nextPtr d. heap (registerEntity f eid d) p
         = (if p \<in> set (waiters eid d) then map_option (eraseMissing eid) (heap d p) else heap d p))
   \<and> (\<forall>p\<in>set (pendingActions (registerEntity f eid d)).
         p \<in> set (pendingActions d) \<or> p \<in> set (blockedActionPtrs d) \<or> nextPtr d \<le> p)"
proof -
  let ?d0 = "d\<lparr>entityMap := (entityMap d)(eid \<mapsto> f)\<rparr>"
  let ?d1 = "unblockBlockedActions eid ?d0"
  let ?d' = "registerEntity f eid d"
  have d': "?d' = fireTriggers eid f ?d1" by (simp add: registerEntity_def)
  have q: "queues ?d1 ?d'" unfolding d' fireTriggers_def by (rule queues_fireLoop)
  have w0: "waiters eid ?d0 = waiters eid d" by (simp add: waiters_def)
  have u0: "unblockedBy eid ?d0 = unblockedBy eid d" by (simp add: unblockedBy_def fun_eq_iff)
  have h1: "heap ?d1 p = (if p \<in> set (waiters eid d) then map_option (eraseMissing eid) (heap d p) else heap d p)" for p
    by (simp add: unblockBlockedActions_def Let_def unblockLoop_heap waiters_def)
  have b1: "blockedActionPtrs ?d1
      = filter (\<lambda>w. \<not> (w \<in> set (waiters eid d) \<and> unblockedBy eid d w)) (blockedActionPtrs d)"
    using unblockLoop_blocked [of eid "waiters eid ?d0" ?d0]
    by (simp add: unblockBlockedActions_def Let_def waiters_def u0)
  have ba1: "blockedActions ?d1 = filter (\<lambda>e. fst e \<noteq> eid) (blockedActions d)"
    by (simp add: unblockBlockedActions_def Let_def)
  have n1: "nextPtr ?d1 = nextPtr d"
    by (simp add: unblockBlockedActions_def Let_def unblockLoop_untouched)
  from unblockLoop_pending [of eid "waiters eid ?d0" ?d0] obtain ps where
    ps: "pendingActions ?d1 = pendingActions d @ ps" "set ps \<subseteq> set (blockedActionPtrs d)"
    by (auto simp: unblockBlockedActions_def Let_def waiters_def)
  from q obtain qs where
    qs: "pendingActions ?d' = pendingActions ?d1 @ qs" "\<forall>p\<in>set qs. nextPtr ?d1 \<le> p"
    unfolding queues_def by blast
  have 1: "blockedActions ?d' = filter (\<lambda>e. fst e \<noteq> eid) (blockedActions d)"
    using q ba1 by (simp add: queues_def)
  have 2: "blockedActionPtrs ?d'
       = filter (\<lambda>w. \<not> (w \<in> set (waiters eid d) \<and> unblockedBy eid d w)) (blockedActionPtrs d)"
    using q b1 by (simp add: queues_def)
  have "frame ?d0 ?d'"
    unfolding registerEntity_def fireTriggers_def
    by (rule frame_trans [OF frame_unblockBlockedActions frame_fireLoop])
  then have 3: "activeActions ?d' = activeActions d" by (simp add: frame_def)
  have 4: "\<forall>p<nextPtr d. heap ?d' p
         = (if p \<in> set (waiters eid d) then map_option (eraseMissing eid) (heap d p) else heap d p)"
    using q n1 h1 by (simp add: queues_def)
  have 5: "\<forall>p\<in>set (pendingActions ?d').
         p \<in> set (pendingActions d) \<or> p \<in> set (blockedActionPtrs d) \<or> nextPtr d \<le> p"
    using ps qs n1 by auto
  from 1 2 3 4 5 show ?thesis by blast
qed

lemma trace_queueNewAction [simp]: "trace (queueNewAction act f t d) = trace d"
  by (simp add: queueNewAction_def Let_def)

lemma trace_tryFactories [simp]: "trace (tryFactories fs s t d) = trace d"
  by (induction fs arbitrary: d) (simp_all split: option.splits)

lemma trace_scanLoop [simp]: "trace (scanLoop q d) = trace d"
proof (induction q d rule: scanLoop.induct)
  case (1 fileQueue d)
  show ?case
  proof (cases "fileQueue = []")
    case True
    then show ?thesis by (subst scanLoop.simps) simp
  next
    case False
    show ?thesis
    proof (cases "isDirectory (fst (last fileQueue))")
      case True
      with False 1 show ?thesis by (subst scanLoop.simps) (simp add: Let_def)
    next
      case dir: False
      from 1(2) [OF False refl refl refl dir] False dir
      show ?thesis by (subst scanLoop.simps) (simp add: Let_def)
    qed
  qed
qed

lemma trace_scanOutputs: "trace (scanOutputs os d) = trace d @ map (\<lambda>out. Scan out out) os"
  by (induction os arbitrary: d) (simp_all add: scanForActions_def)

lemma trace_fireLoop: "trace (fireLoop eid f fs d) = trace d @ map (\<lambda>x. Trigger eid f) fs"
proof (induction fs arbitrary: d)
  case Nil
  show ?case by simp
next
  case (Cons factory fs)
  show ?case
    by (cases "tryMakeAction_entity factory eid f") (simp_all add: Let_def Cons)
qed

lemma trace_unblockLoop:
  "\<exists>us. trace (unblockLoop eid ws d) = trace d @ us \<and> list_all (isUnblockOf eid) us
      \<and> (ws = [] \<longrightarrow> us = [])"
proof (induction ws arbitrary: d)
  case Nil
  show ?case by simp
next
  case (Cons w0 ws)
  show ?case
  proof (cases "heap d w0")
    case None
    from Cons [of d] obtain us where
      "trace (unblockLoop eid ws d) = trace d @ us" "list_all (isUnblockOf eid) us" by blast
    with None show ?thesis by simp
  next
    case (Some b)
    let ?d1 = "if unblockedBy eid d w0 \<and> w0 \<in> set (blockedActionPtrs d)
        then d\<lparr>heap := (heap d)(w0 \<mapsto> eraseMissing eid b), trace := trace d @ [Unblock eid w0],
               blockedActionPtrs := removeAll w0 (blockedActionPtrs d),
               pendingActions := pendingActions d @ [w0]\<rparr>
        else d\<lparr>heap := (heap d)(w0 \<mapsto> eraseMissing eid b), trace := trace d @ [Unblock eid w0]\<rparr>"
    have t1: "trace ?d1 = trace d @ [Unblock eid w0]" by simp
    from Cons [of ?d1] obtain us where
      us: "trace (unblockLoop eid ws ?d1) = trace ?d1 @ us" "list_all (isUnblockOf eid) us" by blast
    have "trace (unblockLoop eid (w0 # ws) d) = trace d @ (Unblock eid w0 # us)"
      unfolding unblockLoop_step [OF Some] us(1) t1 by simp
    moreover have "list_all (isUnblockOf eid) (Unblock eid w0 # us)" using us(2) by simp
    ultimately show ?thesis by blast
  qed
qed

lemma trace_registerEntity:
  "\<exists>us ts. trace (registerEntity f eid d) = trace d @ us @ ts
      \<and> list_all (isUnblockOf eid) us \<and> list_all (isTriggerOf eid) ts
      \<and> (waiters eid d = [] \<longrightarrow> us = [])"
proof -
  let ?d0 = "d\<lparr>entityMap := (entityMap d)(eid \<mapsto> f)\<rparr>"
  let ?ws = "map snd (filter (\<lambda>e. fst e = eid) (blockedActions d))"
  from trace_unblockLoop [of eid ?ws ?d0] obtain us where
    us: "trace (unblockLoop eid ?ws ?d0) = trace d @ us" "list_all (isUnblockOf eid) us"
      "?ws = [] \<longrightarrow> us = []" by auto
  let ?ts = "map (\<lambda>x. Trigger eid f)
      (map snd (filter (\<lambda>e. fst e = eid) (triggers (unblockBlockedActions eid ?d0))))"
  have "trace (registerEntity f eid d) = trace d @ us @ ?ts"
    by (simp add: registerEntity_def fireTriggers_def trace_fireLoop unblockBlockedActions_def
        Let_def us(1))
  moreover have "list_all (isTriggerOf eid) ?ts" by (simp add: list_all_iff)
  moreover have "waiters eid d = [] \<longrightarrow> us = []" using us(3) by (simp add: waiters_def)
  ultimately show ?thesis using us(2) by blast
qed

lemma waiters_registerEntity:
  "waiters eid (registerEntity f eid d) = []"
  "waiters e d = [] \<Longrightarrow> waiters e (registerEntity f eid d) = []"
  using registerEntity_effects [of f eid d]
  by (simp_all add: waiters_def filter_empty_conv)

lemma isUnblockOf_isUnblock: "isUnblockOf eid ob \<Longrightarrow> isUnblock ob"
  by (cases ob) auto

lemma isTriggerOf_isTrigger: "isTriggerOf eid ob \<Longrightarrow> isTrigger ob"
  by (cases ob) auto

lemma isUnblockOf_not_trigger: "isUnblockOf eid ob \<Longrightarrow> \<not> isTriggerOf e ob"
  by (cases ob) auto

lemma isTriggerOf_not_unblock: "isTriggerOf eid ob \<Longrightarrow> \<not> isUnblockOf e ob"
  by (cases ob) auto

lemma isUnblockOf_other: "isUnblockOf eid ob \<Longrightarrow> eid \<noteq> e \<Longrightarrow> \<not> isUnblockOf e ob"
  by (cases ob) auto

lemma isTriggerOf_other: "isTriggerOf eid ob \<Longrightarrow> eid \<noteq> e \<Longrightarrow> \<not> isTriggerOf e ob"
  by (cases ob) auto

lemma ubt_no_unblock:
  "\<not> list_ex (isUnblockOf e) seg \<Longrightarrow> unblocksBeforeTriggersOf e seg"
  by (auto simp: unblocksBeforeTriggersOf_def list_ex_iff dest: set_dropWhileD)

lemma ubt_skip:
  "\<forall>ob\<in>set s1. \<not> isTriggerOf e ob \<Longrightarrow>
     unblocksBeforeTriggersOf e (s1 @ s2) = unblocksBeforeTriggersOf e s2"
  by (simp add: unblocksBeforeTriggersOf_def dropWhile_append2)

lemma ubt_append:
  assumes "unblocksBeforeTriggersOf e s1" "\<not> list_ex (isUnblockOf e) s2"
  shows "unblocksBeforeTriggersOf e (s1 @ s2)"
proof (cases "\<forall>ob\<in>set s1. \<not> isTriggerOf e ob")
  case True
  with assms(2) show ?thesis by (simp add: ubt_skip ubt_no_unblock)
next
  case False
  then obtain ob where "ob \<in> set s1" "\<not> \<not> isTriggerOf e ob" by blast
  then have "dropWhile (\<lambda>ob. \<not> isTriggerOf e ob) (s1 @ s2)
      = dropWhile (\<lambda>ob. \<not> isTriggerOf e ob) s1 @ s2"
    by (rule dropWhile_append1)
  with assms show ?thesis by (simp add: unblocksBeforeTriggersOf_def)
qed

lemma commitSegment_refl: "commitSegment e d d []"
  by (simp add: commitSegment_def unblocksBeforeTriggersOf_def)

lemma commitSegment_trans:
  assumes 1: "commitSegment e d d1 s1" and 2: "commitSegment e d1 d2 s2"
  shows "commitSegment e d d2 (s1 @ s2)"
proof -
  have tr: "trace d2 = trace d @ (s1 @ s2)" using 1 2 by (simp add: commitSegment_def)
  have ut: "list_all (\<lambda>ob. isUnblock ob \<or> isTrigger ob) (s1 @ s2)"
    using 1 2 by (simp add: commitSegment_def)
  have w1: "waiters e d1 = []" if "waiters e d = [] \<or> list_ex (isTriggerOf e) s1"
    using 1 that by (simp add: commitSegment_def)
  have nu2: "\<not> list_ex (isUnblockOf e) s2" if "waiters e d1 = []"
    using 2 that by (simp add: commitSegment_def)
  have w2: "waiters e d2 = []" if "waiters e d1 = [] \<or> list_ex (isTriggerOf e) s2"
    using 2 that by (simp add: commitSegment_def)
  have nu: "\<not> list_ex (isUnblockOf e) (s1 @ s2)" if w: "waiters e d = []"
  proof -
    from 1 w have "\<not> list_ex (isUnblockOf e) s1" by (simp add: commitSegment_def)
    moreover from w have "\<not> list_ex (isUnblockOf e) s2" by (intro nu2 w1) simp
    ultimately show ?thesis by simp
  qed
  have w: "waiters e d2 = []" if "waiters e d = [] \<or> list_ex (isTriggerOf e) (s1 @ s2)"
  proof (cases "list_ex (isTriggerOf e) s2")
    case True
    then show ?thesis by (intro w2) simp
  next
    case False
    with that have "waiters e d = [] \<or> list_ex (isTriggerOf e) s1" by simp
    then have "waiters e d1 = []" by (rule w1)
    then show ?thesis by (intro w2) simp
  qed
  have ubt: "unblocksBeforeTriggersOf e (s1 @ s2)"
  proof (cases "list_ex (isTriggerOf e) s1")
    case True
    then have "waiters e d1 = []" by (intro w1) simp
    then have "\<not> list_ex (isUnblockOf e) s2" by (rule nu2)
    with 1 show ?thesis by (intro ubt_append) (simp_all add: commitSegment_def)
  next
    case False
    then have "\<forall>ob\<in>set s1. \<not> isTriggerOf e ob" by (simp add: list_ex_iff)
    from ubt_skip [OF this, of s2] 2 show ?thesis by (simp add: commitSegment_def)
  qed
  from tr ut ubt nu w show ?thesis unfolding commitSegment_def by blast
qed

lemma commitSegment_registerEntity:
  "\<exists>seg. commitSegment e d (registerEntity f eid d) seg"
proof -
  let ?d1 = "registerEntity f eid d"
  from trace_registerEntity [of f eid d] obtain us ts where
    ut: "trace ?d1 = trace d @ us @ ts" "list_all (isUnblockOf eid) us"
      "list_all (isTriggerOf eid) ts" "waiters eid d = [] \<longrightarrow> us = []"
    by blast
  have us_u: "\<forall>ob\<in>set us. isUnblockOf eid ob" and ts_t: "\<forall>ob\<in>set ts. isTriggerOf eid ob"
    using ut(2,3) by (simp_all add: list_all_iff)
  have us_nt: "\<forall>ob\<in>set us. \<not> isTriggerOf e ob"
    using us_u by (blast dest: isUnblockOf_not_trigger)
  have ts_nu: "\<forall>ob\<in>set ts. \<not> isUnblockOf e ob"
    using ts_t by (blast dest: isTriggerOf_not_unblock)
  have 2: "list_all (\<lambda>ob. isUnblock ob \<or> isTrigger ob) (us @ ts)"
    unfolding list_all_iff using us_u ts_t
    by (auto dest: isUnblockOf_isUnblock isTriggerOf_isTrigger)
  have "unblocksBeforeTriggersOf e ts"
    using ts_nu by (intro ubt_no_unblock) (simp add: list_ex_iff)
  then have 3: "unblocksBeforeTriggersOf e (us @ ts)"
    by (simp add: ubt_skip [OF us_nt])
  have 4: "\<not> list_ex (isUnblockOf e) (us @ ts)" if w: "waiters e d = []"
  proof (cases "eid = e")
    case True
    with w ut(4) ts_nu show ?thesis by (simp add: list_ex_iff)
  next
    case False
    then have "\<forall>ob\<in>set us. \<not> isUnblockOf e ob"
      using us_u by (blast dest: isUnblockOf_other)
    with ts_nu show ?thesis by (auto simp: list_ex_iff)
  qed
  have 5: "waiters e ?d1 = []" if h: "waiters e d = [] \<or> list_ex (isTriggerOf e) (us @ ts)"
  proof (cases "eid = e")
    case True
    then show ?thesis by (simp add: waiters_registerEntity)
  next
    case False
    then have "\<forall>ob\<in>set ts. \<not> isTriggerOf e ob"
      using ts_t by (blast dest: isTriggerOf_other)
    with us_nt h have "waiters e d = []" by (auto simp: list_ex_iff)
    then show ?thesis by (rule waiters_registerEntity)
  qed
  from ut(1) 2 3 4 5 have "commitSegment e d ?d1 (us @ ts)"
    unfolding commitSegment_def by simp
  then show ?thesis ..
qed

lemma commitSegment_registerEntities:
  "\<exists>seg. commitSegment e d (registerEntities f es d) seg"
proof (induction es arbitrary: d)
  case Nil
  show ?case using commitSegment_refl by auto
next
  case (Cons eid es)
  from commitSegment_registerEntity obtain s1 where
    "commitSegment e d (registerEntity f eid d) s1" by blast
  moreover from Cons obtain s2 where
    "commitSegment e (registerEntity f eid d) (registerEntities f es (registerEntity f eid d)) s2"
    by blast
  ultimately have "commitSegment e d (registerEntities f (eid # es) d) (s1 @ s2)"
    using commitSegment_trans by simp
  then show ?case ..
qed

lemma commitSegment_registerProviders:
  "\<exists>seg. commitSegment e d (registerProviders ps d) seg"
proof (induction ps arbitrary: d)
  case Nil
  show ?case using commitSegment_refl by auto
next
  case (Cons p ps)
  let ?d0 = "d\<lparr>filePtrs := filePtrs d @ [pfile p]\<rparr>"
  let ?d1 = "registerEntities (pfile p) (entities p) ?d0"
  from commitSegment_registerEntities obtain s1 where
    "commitSegment e ?d0 ?d1 s1" by blast
  then have 1: "commitSegment e d ?d1 s1"
    by (simp add: commitSegment_def waiters_def)
  from Cons obtain s2 where "commitSegment e ?d1 (registerProviders ps ?d1) s2" by blast
  with 1 have "commitSegment e d (registerProviders (p # ps) d) (s1 @ s2)"
    using commitSegment_trans by simp
  then show ?case ..
qed

lemma isUnblock_not_scan: "isUnblock ob \<Longrightarrow> \<not> isScan ob"
  by (cases ob) auto

lemma isTrigger_not_scan: "isTrigger ob \<Longrightarrow> \<not> isScan ob"
  by (cases ob) auto

lemma commit_log_order:
  assumes seg: "list_all (\<lambda>ob. isUnblock ob \<or> isTrigger ob) seg" "unblocksBeforeTriggersOf e seg"
    and rest: "\<forall>ob\<in>set rest. \<not> isUnblock ob \<and> \<not> isTrigger ob"
  shows "unblocksBeforeTriggersOf e (seg @ rest) \<and> triggersBeforeScans (seg @ rest)"
proof
  have "\<not> list_ex (isUnblockOf e) rest"
    using rest by (auto simp: list_ex_iff dest: isUnblockOf_isUnblock)
  with seg(2) show "unblocksBeforeTriggersOf e (seg @ rest)" by (rule ubt_append)
  have "\<forall>ob\<in>set seg. \<not> isScan ob"
    using seg(1) by (auto simp: list_all_iff dest: isUnblock_not_scan isTrigger_not_scan)
  then have "dropWhile (\<lambda>ob. \<not> isScan ob) (seg @ rest) = dropWhile (\<lambda>ob. \<not> isScan ob) rest"
    by (simp add: dropWhile_append2)
  then show "triggersBeforeScans (seg @ rest)"
    using rest by (auto simp: triggersBeforeScans_def list_ex_iff dest: set_dropWhileD)
qed

text \<open>Firing the triggers of an entity, and publishing an entity nobody waits for.\<close>

lemma nextPtr_fireLoop:
  "nextPtr (fireLoop eid f fs d) = nextPtr d + length (filter (makes eid f) fs)"
proof (induction fs arbitrary: d)
  case Nil
  show ?case by simp
next
  case (Cons factory fs)
  show ?case
    by (cases "tryMakeAction_entity factory eid f")
      (simp_all add: Let_def Cons makes_def queueNewAction_def)
qed

lemma pending_fireLoop:
  "pendingActions (fireLoop eid f fs d)
     = pendingActions d @ [nextPtr d ..< nextPtr (fireLoop eid f fs d)]"
proof (induction fs arbitrary: d)
  case Nil
  show ?case by simp
next
  case (Cons factory fs)
  show ?case
  proof (cases "tryMakeAction_entity factory eid f")
    case None
    then show ?thesis by (simp add: Let_def Cons)
  next
    case (Some act)
    let ?d1 = "queueNewAction act f f (d\<lparr>trace := trace d @ [Trigger eid f]\<rparr>)"
    have n: "nextPtr ?d1 = Suc (nextPtr d)" by (simp add: queueNewAction_def Let_def)
    have p: "pendingActions ?d1 = pendingActions d @ [nextPtr d]"
      by (simp add: queueNewAction_def Let_def)
    have l: "nextPtr d < nextPtr (fireLoop eid f fs ?d1)"
      unfolding nextPtr_fireLoop n by simp
    have "fireLoop eid f (factory # fs) d = fireLoop eid f fs ?d1"
      using Some by (simp add: Let_def)
    then show ?thesis
      using Cons [of ?d1] upt_conv_Cons [OF l] by (simp add: n p)
  qed
qed

lemma new_fireLoop:
  "nextPtr d \<le> q \<Longrightarrow> q < nextPtr (fireLoop eid f fs d) \<Longrightarrow>
     \<exists>b. heap (fireLoop eid f fs d) q = Some b \<and> state b = PENDING"
proof (induction fs arbitrary: d)
  case Nil
  then show ?case by simp
next
  case (Cons factory fs)
  show ?case
  proof (cases "tryMakeAction_entity factory eid f")
    case None
    with Cons.prems Cons.IH [of "d\<lparr>trace := trace d @ [Trigger eid f]\<rparr>"]
    show ?thesis by (simp add: Let_def)
  next
    case (Some act)
    let ?d1 = "queueNewAction act f f (d\<lparr>trace := trace d @ [Trigger eid f]\<rparr>)"
    have n: "nextPtr ?d1 = Suc (nextPtr d)" by (simp add: queueNewAction_def Let_def)
    have e: "fireLoop eid f (factory # fs) d = fireLoop eid f fs ?d1"
      using Some by (simp add: Let_def)
    show ?thesis
    proof (cases "q = nextPtr d")
      case True
      have h: "heap ?d1 q = Some (ActionDriver_ctor act f (beginTask (getVerb act) (displayName f)))"
        using True by (simp add: queueNewAction_def Let_def)
      from queues_fireLoop [of ?d1 eid f fs] True n
      have "heap (fireLoop eid f fs ?d1) q = heap ?d1 q" by (simp add: queues_def)
      with h show ?thesis unfolding e by (simp add: ActionDriver_ctor_def)
    next
      case False
      with Cons.prems(1) have "nextPtr ?d1 \<le> q" unfolding n by simp
      from Cons.IH [OF this] Cons.prems(2) show ?thesis unfolding e by simp
    qed
  qed
qed

lemma registerEntity_no_waiters:
  assumes "waiters eid d = []"
  shows "registerEntity f eid d
     = fireTriggers eid f (d\<lparr>entityMap := (entityMap d)(eid \<mapsto> f)\<rparr>)"
proof -
  let ?d0 = "d\<lparr>entityMap := (entityMap d)(eid \<mapsto> f)\<rparr>"
  from assms have e: "filter (\<lambda>e. fst e = eid) (blockedActions d) = []"
    by (simp add: waiters_def)
  then have "\<forall>e\<in>set (blockedActions d). fst e \<noteq> eid" by (simp add: filter_empty_conv)
  then have k: "filter (\<lambda>e. fst e \<noteq> eid) (blockedActions d) = blockedActions d"
    by (simp add: filter_id_conv)
  have "unblockBlockedActions eid ?d0 = ?d0"
    by (simp add: unblockBlockedActions_def Let_def e k)
  then show ?thesis by (simp add: registerEntity_def)
qed

lemma registerEntity_repeated:
  "registerEntity f eid (registerEntity f eid d) = fireTriggers eid f (registerEntity f eid d)"
proof -
  let ?d1 = "registerEntity f eid d"
  have "(entityMap ?d1)(eid \<mapsto> f) = entityMap ?d1"
    by (simp add: registerEntity_entityMap)
  then have "?d1\<lparr>entityMap := (entityMap ?d1)(eid \<mapsto> f)\<rparr> = ?d1" by simp
  with registerEntity_no_waiters [OF waiters_registerEntity(1), of f eid f d]
  show ?thesis by simp
qed

lemma fireTriggers_effects:
  "entityMap (fireTriggers eid f d) = entityMap d
   \<and> blockedActions (fireTriggers eid f d) = blockedActions d
   \<and> blockedActionPtrs (fireTriggers eid f d) = blockedActionPtrs d
   \<and> activeActions (fireTriggers eid f d) = activeActions d
   \<and> eventQueue (fireTriggers eid f d) = eventQueue d
   \<and> filePtrs (fireTriggers eid f d) = filePtrs d
   \<and> (\<forall>q<nextPtr d. heap (fireTriggers eid f d) q = heap d q)
   \<and> trace (fireTriggers eid f d) = trace d @ replicate (length (triggered eid d)) (Trigger eid f)
   \<and> nextPtr (fireTriggers eid f d) = nextPtr d + length (filter (makes eid f) (triggered eid d))
   \<and> pendingActions (fireTriggers eid f d)
        = pendingActions d @ [nextPtr d ..< nextPtr (fireTriggers eid f d)]
   \<and> (\<forall>q. nextPtr d \<le> q \<and> q < nextPtr (fireTriggers eid f d) \<longrightarrow>
         (\<exists>b. heap (fireTriggers eid f d) q = Some b \<and> state b = PENDING))"
proof -
  have q: "queues d (fireTriggers eid f d)"
    unfolding fireTriggers_def by (rule queues_fireLoop)
  have fr: "frame d (fireTriggers eid f d)"
    unfolding fireTriggers_def by (rule frame_fireLoop)
  have t: "trace (fireTriggers eid f d)
      = trace d @ replicate (length (triggered eid d)) (Trigger eid f)"
    by (simp add: fireTriggers_def trace_fireLoop triggered_def map_replicate_const)
  have n: "nextPtr (fireTriggers eid f d)
      = nextPtr d + length (filter (makes eid f) (triggered eid d))"
    by (simp add: fireTriggers_def nextPtr_fireLoop triggered_def)
  have p: "pendingActions (fireTriggers eid f d)
        = pendingActions d @ [nextPtr d ..< nextPtr (fireTriggers eid f d)]"
    unfolding fireTriggers_def by (rule pending_fireLoop)
  have h: "\<forall>q. nextPtr d \<le> q \<and> q < nextPtr (fireTriggers eid f d) \<longrightarrow>
         (\<exists>b. heap (fireTriggers eid f d) q = Some b \<and> state b = PENDING)"
    unfolding fireTriggers_def using new_fireLoop by blast
  from q have q': "entityMap (fireTriggers eid f d) = entityMap d"
    "blockedActions (fireTriggers eid f d) = blockedActions d"
    "blockedActionPtrs (fireTriggers eid f d) = blockedActionPtrs d"
    "filePtrs (fireTriggers eid f d) = filePtrs d"
    "\<forall>q<nextPtr d. heap (fireTriggers eid f d) q = heap d q"
    by (simp_all add: queues_def)
  from fr have fr': "activeActions (fireTriggers eid f d) = activeActions d"
    "eventQueue (fireTriggers eid f d) = eventQueue d"
    by (simp_all add: frame_def)
  from q' fr' t n p h show ?thesis by blast
qed

lemma triggered_registerEntity: "triggered eid (registerEntity f e d) = triggered eid d"
  using frame_registerEntity [of d f e] by (simp add: triggered_def frame_def)

section \<open>Properties\<close>

subsection \<open>The build context\<close>

text \<open>
  C8. For a driver in state RUNNING, \<^verbatim>\<open>findProvider(id, title)\<close> returns the provider
  from the entity map when \<open>id\<close> is present and changes nothing; when \<open>id\<close> is absent it
  returns no file, and the only change to the state of the driver is that the missing
  dependencies of this action driver now map \<open>id\<close> to \<open>title\<close>.
  \<^verbatim>\<open>findOptionalProvider(id)\<close> does the same lookup and never changes the state.
\<close>

theorem findProvider_records_missing:
  assumes "state a = RUNNING"
  shows "findProvider this a eid title d =
           (case entityMap d eid of
              Some f \<Rightarrow> Inr (Some f, d)
            | None \<Rightarrow> Inr (None, d\<lparr>heap := (heap d)(this \<mapsto>
                a\<lparr>missingDependencies := AList.update eid title (missingDependencies a)\<rparr>)\<rparr>))
         \<and> map_of (AList.update eid title (missingDependencies a))
             = (map_of (missingDependencies a))(eid \<mapsto> title)
         \<and> findOptionalProvider this a eid d = Inr (entityMap d eid, d)"
  using assms
  by (simp add: findProvider_def findOptionalProvider_def ensureRunning_def update_conv'
      split: option.splits)

theorem findProvider_records_missing_witness:
  "state (the (heap ex_started 1)) = RUNNING
   \<and> findProvider 1 (the (heap ex_started 1)) 2 ''hdr'' ex_started =
       Inr (None, ex_started\<lparr>heap := (heap ex_started)(1 \<mapsto>
              (the (heap ex_started 1))\<lparr>missingDependencies := [(2, ''hdr'')]\<rparr>)\<rparr>)
   \<and> findProvider 1 (the (heap ex_committed 1)) 2 ''hdr'' ex_committed
       = Inr (Some ex_lib, ex_committed)
   \<and> findOptionalProvider 1 (the (heap ex_started 1)) 2 ex_started = Inr (None, ex_started)"
proof -
  have h: "state (the (heap ex_started 1)) = RUNNING" by code_simp
  have h': "state (the (heap ex_committed 1)) = RUNNING" by code_simp
  have e: "entityMap ex_started 2 = None" by code_simp
  have e': "entityMap ex_committed 2 = Some ex_lib" by code_simp
  have m: "AList.update 2 ''hdr'' (missingDependencies (the (heap ex_started 1))) = [(2, ''hdr'')]"
    by code_simp
  from findProvider_records_missing [OF h, of 1 2 "''hdr''" ex_started]
    findProvider_records_missing [OF h', of 1 2 "''hdr''" ex_committed] h e e' m
  show ?thesis by simp
qed

text \<open>
  C4. In state RUNNING, \<^verbatim>\<open>success()\<close> and \<^verbatim>\<open>passed()\<close> throw when the action driver
  has missing dependencies, and the call then leaves the whole state as it was: the driver
  stays RUNNING and no callback is posted. With no missing dependencies \<^verbatim>\<open>success()\<close>
  sets the state SUCCEEDED and \<^verbatim>\<open>passed()\<close> sets it PASSED, and each posts one
  \<^verbatim>\<open>DoneCallback\<close> for the driver on the event manager; nothing else changes.
\<close>

theorem success_passed_need_no_missing:
  assumes "state a = RUNNING"
  shows "if missingDependencies a \<noteq> []
         then success this a d
                = Inl (runtime_error ''Action reported success despite missing dependencies.'')
              \<and> passed this a d
                = Inl (runtime_error ''Action reported success despite missing dependencies.'')
              \<and> contextCall this a Success d = d
              \<and> contextCall this a Passed d = d
         else success this a d
                = Inr (d\<lparr>heap := (heap d)(this \<mapsto> a\<lparr>state := SUCCEEDED\<rparr>),
                         eventQueue := eventQueue d @ [DoneCallback this]\<rparr>)
              \<and> passed this a d
                = Inr (d\<lparr>heap := (heap d)(this \<mapsto> a\<lparr>state := PASSED\<rparr>),
                         eventQueue := eventQueue d @ [DoneCallback this]\<rparr>)"
  using assms
  by (simp add: success_def passed_def ensureRunning_def queueDoneCallback_def)

theorem success_passed_need_no_missing_witness:
  "state (the (heap ex_missing 1)) = RUNNING
   \<and> missingDependencies (the (heap ex_missing 1)) \<noteq> []
   \<and> success 1 (the (heap ex_missing 1)) ex_missing
       = Inl (runtime_error ''Action reported success despite missing dependencies.'')
   \<and> contextCall 1 (the (heap ex_missing 1)) Passed ex_missing = ex_missing
   \<and> state (the (heap ex_missing 0)) = RUNNING
   \<and> missingDependencies (the (heap ex_missing 0)) = []
   \<and> success 0 (the (heap ex_missing 0)) ex_missing
       = Inr (ex_missing\<lparr>heap := (heap ex_missing)(0 \<mapsto> (the (heap ex_missing 0))\<lparr>state := SUCCEEDED\<rparr>),
                eventQueue := eventQueue ex_missing @ [DoneCallback 0]\<rparr>)"
proof -
  have h1: "state (the (heap ex_missing 1)) = RUNNING" by code_simp
  have m1: "missingDependencies (the (heap ex_missing 1)) \<noteq> []" by code_simp
  have h0: "state (the (heap ex_missing 0)) = RUNNING" by code_simp
  have m0: "missingDependencies (the (heap ex_missing 0)) = []" by code_simp
  from success_passed_need_no_missing [OF h1, of 1 ex_missing]
    success_passed_need_no_missing [OF h0, of 0 ex_missing] h1 m1 h0 m0
  show ?thesis by simp
qed

subsection \<open>The scheduler\<close>

text \<open>
  C6. Whatever factories are registered, whatever the actions do and in whatever order the
  event manager runs the callbacks, after every event (in particular after
  \<^verbatim>\<open>Driver::start()\<close>, and after every \<^verbatim>\<open>DoneCallback\<close> has run \<^verbatim>\<open>returned()\<close> and
  \<^verbatim>\<open>startSomeActions()\<close> to their end) the number of active actions is at most
  \<^verbatim>\<open>maxConcurrentActions\<close>, for every positive value \<open>m\<close> given to the constructor.
\<close>

theorem active_bounded:
  assumes "0 < m"
  shows "int (length (activeActions (run es (Driver_ctor s t m)))) \<le> m
         \<and> maxConcurrentActions (run es (Driver_ctor s t m)) = m"
proof -
  have "bounded (Driver_ctor s t m)" using assms by (simp add: bounded_def Driver_ctor_def)
  moreover have "maxConcurrentActions (Driver_ctor s t m) = m" by (simp add: Driver_ctor_def)
  ultimately show ?thesis
    using sched_run [of es "Driver_ctor s t m"] by (simp add: bounded_def)
qed

theorem active_bounded_witness:
  "(0::int) < 2
   \<and> int (length (activeActions ex_committed)) \<le> 2
   \<and> activeActions ex_committed = [3, 1]
   \<and> pendingActions ex_committed = [2]"
proof -
  have h: "(0::int) < 2" by simp
  have b: "int (length (activeActions ex_committed)) \<le> 2"
    unfolding ex_committed_def by (rule active_bounded [OF h, THEN conjunct1])
  have a: "activeActions ex_committed = [3, 1]" by code_simp
  have p: "pendingActions ex_committed = [2]" by code_simp
  from h b a p show ?thesis by blast
qed

text \<open>
  C5. \<^verbatim>\<open>queueNewAction\<close> puts the new driver at the back of \<^verbatim>\<open>pendingActions\<close>, and
  \<^verbatim>\<open>startSomeActions\<close> takes from the back: with \<open>k\<close> free slots it starts the last
  \<open>k\<close> drivers of the queue, the most recently queued first, and leaves the others in
  the queue. The order of the calls of \<^verbatim>\<open>start()\<close> is read off the log
  (\<open>started\<close>) and is also the order in which the drivers are put into
  \<^verbatim>\<open>activeActions\<close>. The drivers in the queue are live.
\<close>

theorem pending_queue_is_lifo:
  assumes "\<forall>p\<in>set (pendingActions d). heap d p \<noteq> None"
  shows "pendingActions (queueNewAction act f t d) = pendingActions d @ [nextPtr d]
       \<and> started (trace (startSomeActions d))
           = started (trace d) @ take (freeSlots d) (rev (pendingActions d))
       \<and> activeActions (startSomeActions d)
           = activeActions d @ take (freeSlots d) (rev (pendingActions d))
       \<and> pendingActions (startSomeActions d)
           = rev (drop (freeSlots d) (rev (pendingActions d)))"
  using startSomeActions_lifo [OF assms]
  by (simp add: queueNewAction_def Let_def)

theorem pending_queue_is_lifo_witness:
  "heap ex_returned 2 \<noteq> None \<and> heap ex_returned 1 \<noteq> None \<and> heap ex_returned 3 \<noteq> None
   \<and> pendingActions ex_returned = [2, 1, 3]
   \<and> freeSlots ex_returned = 2
   \<and> started (trace (startSomeActions ex_returned)) = started (trace ex_returned) @ [3, 1]
   \<and> activeActions (startSomeActions ex_returned) = [3, 1]
   \<and> pendingActions (startSomeActions ex_returned) = [2]"
proof -
  have h: "\<forall>p\<in>set (pendingActions ex_returned). heap ex_returned p \<noteq> None" by code_simp
  have p: "pendingActions ex_returned = [2, 1, 3]" by code_simp
  have k: "freeSlots ex_returned = 2" by code_simp
  have a: "activeActions ex_returned = []" by code_simp
  have l: "heap ex_returned 2 \<noteq> None" "heap ex_returned 1 \<noteq> None" "heap ex_returned 3 \<noteq> None"
    by code_simp+
  from pending_queue_is_lifo [OF h] l p k a show ?thesis
    by (simp add: numeral_2_eq_2)
qed

text \<open>
  C10. After every event, every driver in \<^verbatim>\<open>pendingActions\<close> is live, is in state
  PENDING and has no missing dependencies, no provisions and no outputs. Every call of
  \<^verbatim>\<open>start()\<close> that a build ever makes, whether on a new driver or on one promoted out of
  the blocked set, finds the driver in that condition: the log holds the fields of the driver
  at each entry of \<^verbatim>\<open>start()\<close>.
\<close>

theorem pending_clean:
  "(\<forall>p\<in>set (pendingActions (run es (Driver_ctor s t m))).
      \<exists>a. heap (run es (Driver_ctor s t m)) p = Some a \<and> state a = PENDING
         \<and> missingDependencies a = [] \<and> provisions a = [] \<and> outputs a = [])
   \<and> (\<forall>p a. Start p a \<in> set (trace (run es (Driver_ctor s t m))) \<longrightarrow>
         state a = PENDING \<and> missingDependencies a = [] \<and> provisions a = [] \<and> outputs a = [])"
proof -
  let ?d = "run es (Driver_ctor s t m)"
  have "Inv ?d" by (rule Inv_run [OF Inv_ctor])
  then have i0: "Inv0 (doneSet ?d) ?d" by (simp add: Inv_def)
  have 1: "\<exists>a. heap ?d p = Some a \<and> state a = PENDING
         \<and> missingDependencies a = [] \<and> provisions a = [] \<and> outputs a = []"
    if "p \<in> set (pendingActions ?d)" for p
  proof -
    from i0 that have "cleanAt ?d p" unfolding Inv0_def by blast
    then show ?thesis by (simp add: cleanAt_def clean_def split: option.splits)
  qed
  have 2: "state a = PENDING \<and> missingDependencies a = [] \<and> provisions a = [] \<and> outputs a = []"
    if "Start p a \<in> set (trace ?d)" for p a
  proof -
    from i0 have "list_all startsClean (trace ?d)" by (simp add: Inv0_def)
    with that have "startsClean (Start p a)" by (simp add: list_all_iff)
    then show ?thesis by (simp add: startsClean_def clean_def)
  qed
  from 1 2 show ?thesis by blast
qed

theorem pending_clean_witness:
  "2 \<in> set (pendingActions ex_committed)
   \<and> (\<exists>a. heap ex_committed 2 = Some a \<and> state a = PENDING
         \<and> missingDependencies a = [] \<and> provisions a = [] \<and> outputs a = [])
   \<and> missingDependencies (the (heap ex_blocked 1)) = [(2, ''hdr'')]
   \<and> Start 1 ((the (heap ex_blocked 1))\<lparr>missingDependencies := []\<rparr>) \<in> set (trace ex_committed)
   \<and> state ((the (heap ex_blocked 1))\<lparr>missingDependencies := []\<rparr>) = PENDING
   \<and> provisions ((the (heap ex_blocked 1))\<lparr>missingDependencies := []\<rparr>) = []
   \<and> outputs ((the (heap ex_blocked 1))\<lparr>missingDependencies := []\<rparr>) = []"
proof -
  let ?a = "(the (heap ex_blocked 1))\<lparr>missingDependencies := []\<rparr>"
  have m: "2 \<in> set (pendingActions ex_committed)" by code_simp
  have b: "missingDependencies (the (heap ex_blocked 1)) = [(2, ''hdr'')]" by code_simp
  have s: "Start 1 ?a \<in> set (trace ex_committed)" by code_simp
  note pc = pending_clean [of ex_events_committed ex_src ex_tmp 2, folded ex_committed_def]
  from pc m have 1: "\<exists>a. heap ex_committed 2 = Some a \<and> state a = PENDING
         \<and> missingDependencies a = [] \<and> provisions a = [] \<and> outputs a = []"
    by blast
  from pc s have 2: "state ?a = PENDING \<and> missingDependencies ?a = []
         \<and> provisions ?a = [] \<and> outputs ?a = []"
    by blast
  from m 1 b s 2 show ?thesis by blast
qed

subsection \<open>Shutdown\<close>

text \<open>
  C9. When the driver is destroyed, at any moment of any build, the dashboard task of every
  action then in the blocked set is set to FAILED.
\<close>

theorem shutdown_fails_blocked:
  "\<forall>p\<in>set (blockedActionPtrs (run es (Driver_ctor s t m))).
     \<exists>a. heap (Driver_dtor (run es (Driver_ctor s t m))) p = Some a
        \<and> taskState (dashboardTask a) = Dashboard_FAILED"
proof
  fix p
  let ?d = "run es (Driver_ctor s t m)"
  assume p: "p \<in> set (blockedActionPtrs ?d)"
  have "Inv ?d" by (rule Inv_run [OF Inv_ctor])
  from Inv_blocked_live [OF this p] obtain a where "heap ?d p = Some a" by blast
  from errorOutBlocked_failed [OF p this] show "\<exists>a. heap (Driver_dtor ?d) p = Some a
        \<and> taskState (dashboardTask a) = Dashboard_FAILED"
    by (simp add: Driver_dtor_def)
qed

theorem shutdown_fails_blocked_witness:
  "1 \<in> set (blockedActionPtrs ex_blocked)
   \<and> taskState (dashboardTask (the (heap ex_blocked 1))) = Dashboard_BLOCKED
   \<and> (\<exists>a. heap (Driver_dtor ex_blocked) 1 = Some a
          \<and> taskState (dashboardTask a) = Dashboard_FAILED)"
proof -
  have m: "1 \<in> set (blockedActionPtrs ex_blocked)" by code_simp
  have b: "taskState (dashboardTask (the (heap ex_blocked 1))) = Dashboard_BLOCKED" by code_simp
  from shutdown_fails_blocked [of ex_events_blocked ex_src ex_tmp 2, folded ex_blocked_def] m
  have "\<exists>a. heap (Driver_dtor ex_blocked) 1 = Some a
          \<and> taskState (dashboardTask a) = Dashboard_FAILED"
    by blast
  with m b show ?thesis by blast
qed

subsection \<open>Completion of an action\<close>

text \<open>
  C2. When \<^verbatim>\<open>returned()\<close> runs on an active driver whose missing dependencies are not
  empty, whatever state the action reported (FAILED included), the roll-back is total: the
  entity map, the file pool and the pending queue are unchanged; the provisions and the
  outputs of the driver are cleared, its state is PENDING again and its dashboard task is
  BLOCKED; its event group is cancelled, so that no \<^verbatim>\<open>StartCallback\<close> of it remains
  posted; it leaves the active actions and is held by \<^verbatim>\<open>blockedActionPtrs\<close>; and
  \<^verbatim>\<open>blockedActions\<close> gains exactly one entry for each entry of its missing dependencies.
\<close>

theorem rollback_is_total:
  assumes a: "heap d this = Some a" and m: "missingDependencies a \<noteq> []"
    and act: "this \<in> set (activeActions d)"
  shows "entityMap (returned this d) = entityMap d
       \<and> filePtrs (returned this d) = filePtrs d
       \<and> pendingActions (returned this d) = pendingActions d
       \<and> heap (returned this d) = (heap d)(this \<mapsto>
            a\<lparr>state := PENDING, provisions := [], outputs := [],
              dashboardTask := setState Dashboard_BLOCKED (dashboardTask a)\<rparr>)
       \<and> taskState (setState Dashboard_BLOCKED (dashboardTask a)) = Dashboard_BLOCKED
       \<and> trace (returned this d) = trace d @ [CancelAll this]
       \<and> StartCallback this \<notin> set (eventQueue (returned this d))
       \<and> activeActions (returned this d) = remove1 this (activeActions d)
       \<and> this \<in> set (blockedActionPtrs (returned this d))
       \<and> blockedActions (returned this d)
           = blockedActions d @ map (\<lambda>e. (fst e, this)) (missingDependencies a)"
  using a m act
  by (simp add: returned_def Let_def cancelAll_def setState_def)

theorem rollback_is_total_witness:
  "heap ex_failed 1 = Some (the (heap ex_failed 1))
   \<and> state (the (heap ex_failed 1)) = FAILED
   \<and> missingDependencies (the (heap ex_failed 1)) = [(2, ''hdr'')]
   \<and> 1 \<in> set (activeActions ex_failed)
   \<and> entityMap (returned 1 ex_failed) = entityMap ex_failed
   \<and> state (the (heap (returned 1 ex_failed) 1)) = PENDING
   \<and> 1 \<in> set (blockedActionPtrs (returned 1 ex_failed))
   \<and> blockedActions (returned 1 ex_failed) = [(2, 1)]"
proof -
  have a: "heap ex_failed 1 = Some (the (heap ex_failed 1))" by code_simp
  have f: "state (the (heap ex_failed 1)) = FAILED" by code_simp
  have m: "missingDependencies (the (heap ex_failed 1)) = [(2, ''hdr'')]" by code_simp
  then have m': "missingDependencies (the (heap ex_failed 1)) \<noteq> []" by simp
  have act: "1 \<in> set (activeActions ex_failed)" by code_simp
  have b: "blockedActions ex_failed = []" by code_simp
  from rollback_is_total [OF a m' act] a f m act b show ?thesis by simp
qed

text \<open>
  C1, as the code has it. The log of one call of \<^verbatim>\<open>returned()\<close> is the log it writes
  when started with an empty one. In it, for each entity \<open>e\<close>, no unblock of a waiter for
  \<open>e\<close> comes after a trigger for \<open>e\<close>: the entities of the provisions are handled one
  after the other, each with its unblocks first and its triggers next. And no unblock and no
  trigger comes after a scan of an output. The unblocks of one entity may well come after the
  triggers of another, as the concrete build shows below.
\<close>

theorem commit_order:
  "unblocksBeforeTriggersOf e (trace (returned this (d\<lparr>trace := []\<rparr>)))
   \<and> triggersBeforeScans (trace (returned this (d\<lparr>trace := []\<rparr>)))"
proof (cases "heap d this")
  case None
  then show ?thesis
    by (simp add: returned_def unblocksBeforeTriggersOf_def triggersBeforeScans_def)
next
  case (Some a)
  let ?d0 = "d\<lparr>trace := []\<rparr>"
  have a0: "heap ?d0 this = Some a" using Some by simp
  show ?thesis
  proof (cases "missingDependencies a \<noteq> []")
    case True
    with a0 have "trace (returned this ?d0) = [CancelAll this]"
      by (simp add: returned_def Let_def cancelAll_def)
    then show ?thesis
      by (simp add: unblocksBeforeTriggersOf_def triggersBeforeScans_def)
  next
    case False
    then have m: "missingDependencies a = []" by simp
    show ?thesis
    proof (cases "state a = SUCCEEDED \<or> state a = PASSED")
      case True
      define a1 where "a1 = a\<lparr>dashboardTask := setState
                       (if state a = PASSED then Dashboard_PASSED else Dashboard_SUCCESS)
                       (dashboardTask a)\<rparr>"
      let ?d1 = "d\<lparr>trace := [], activeActions := remove1 this (activeActions d),
                   heap := (heap d)(this \<mapsto> a1)\<rparr>"
      from commitSegment_registerProviders [of e ?d1 "provisions a"] obtain seg where
        cs: "commitSegment e ?d1 (registerProviders (provisions a) ?d1) seg" by blast
      then have tr: "trace (registerProviders (provisions a) ?d1) = seg"
        by (simp add: commitSegment_def)
      let ?rest = "map (\<lambda>out. Scan out out) (outputs a)
          @ (if this \<in> set (activeActions d) then [CancelAll this] else [])"
      have "returned this ?d0 =
          (let d3 = scanOutputs (outputs a) (registerProviders (provisions a) ?d1)
           in if this \<in> set (activeActions d) then ActionDriver_dtor this d3 else d3)"
        unfolding returned_commit [OF a0 m True] a1_def by simp
      then have "trace (returned this ?d0) = seg @ ?rest"
        by (simp add: Let_def ActionDriver_dtor_def cancelAll_def trace_scanOutputs tr)
      moreover have "\<forall>ob\<in>set ?rest. \<not> isUnblock ob \<and> \<not> isTrigger ob" by auto
      ultimately show ?thesis
        using commit_log_order [of seg e ?rest] cs by (simp add: commitSegment_def)
    next
      case notcommit: False
      with a0 m have "trace (returned this ?d0)
          = (if this \<in> set (activeActions d) then [CancelAll this] else [])"
        by (simp add: returned_def Let_def ActionDriver_dtor_def cancelAll_def)
      then show ?thesis
        by (simp add: unblocksBeforeTriggersOf_def triggersBeforeScans_def)
    qed
  qed
qed

text \<open>
  The commit of driver 0 in the concrete build: it provides entities 1 and 2 with one file,
  a factory is registered for entity 1 and driver 1 waits for entity 2. The trigger for
  entity 1 fires, and queues driver 2, before driver 1 is unblocked on entity 2.
\<close>

theorem commit_order_counterexample:
  "heap ex_ready 0 = Some (the (heap ex_ready 0))
   \<and> state (the (heap ex_ready 0)) = SUCCEEDED
   \<and> provisions (the (heap ex_ready 0)) = [\<lparr>pfile = ex_lib, entities = [1, 2]\<rparr>]
   \<and> outputs (the (heap ex_ready 0)) = [ex_gen]
   \<and> blockedActions ex_ready = [(2, 1)]
   \<and> map fst (triggers ex_ready) = [1]
   \<and> trace (returned 0 (ex_ready\<lparr>trace := []\<rparr>))
       = [Trigger 1 ex_lib, Unblock 2 1, Scan ex_gen ex_gen, CancelAll 0]
   \<and> pendingActions (returned 0 (ex_ready\<lparr>trace := []\<rparr>)) = [2, 1, 3]
   \<and> \<not> unblocksBeforeTriggers (trace (returned 0 (ex_ready\<lparr>trace := []\<rparr>)))"
  by code_simp



subsection \<open>The entity map\<close>

text \<open>
  C7. Publication in the entity map is last-writer-wins, and a repeated publication fires
  the triggers again. Registering \<open>(eid, f)\<close> (the body of the loop at lines 298 to 327)
  leaves the entity map as it was but for \<open>eid\<close>, which now has the provider \<open>f\<close> whatever
  it had before, and that is what a running action finds; registering \<open>(eid, g)\<close>
  afterwards makes \<open>g\<close> the provider. After a commit, an entity named by some provision of
  the driver has the file of the last such provision, and the other entities have the
  provider they had. A publication blocks nobody and runs nobody again: no entry is added to
  \<^verbatim>\<open>blockedActionPtrs\<close> or to \<^verbatim>\<open>blockedActions\<close>, the active actions are the same, a
  driver destroyed before (one that committed) stays destroyed, a live driver keeps its
  state, provisions and outputs, and the queue gains only waiters promoted out of the blocked
  set and newly made drivers.

  Registering the same pair \<open>(eid, f)\<close> a second time does exactly what firing the triggers
  of \<open>eid\<close> does (lines 318 to 327), and no more. The entity map, \<^verbatim>\<open>blockedActions\<close>,
  \<^verbatim>\<open>blockedActionPtrs\<close>, the active actions, the event queue, \<^verbatim>\<open>filePtrs\<close> and every
  driver that exists stay as the first registration left them. But the log gains one
  \<open>Trigger eid f\<close> for every factory registered for \<open>eid\<close>, and for every such factory that
  makes an action a new driver, in state \<open>PENDING\<close>, is allocated and put at the back of
  \<^verbatim>\<open>pendingActions\<close>.
\<close>

theorem publication_last_writer_wins:
  "entityMap (registerEntity f eid d) = (entityMap d)(eid \<mapsto> f)
   \<and> (state r = RUNNING \<longrightarrow>
        findOptionalProvider p r eid (registerEntity f eid d) = Inr (Some f, registerEntity f eid d))
   \<and> entityMap (registerEntity f eid (registerEntity f eid d)) = entityMap (registerEntity f eid d)
   \<and> entityMap (registerEntity g eid (registerEntity f eid d)) = (entityMap d)(eid \<mapsto> g)
   \<and> (heap d this = Some a \<and> missingDependencies a = []
         \<and> (state a = SUCCEEDED \<or> state a = PASSED) \<longrightarrow>
        entityMap (returned this d) eid =
          (case filter (\<lambda>q. eid \<in> set (entities q)) (provisions a) of
             [] \<Rightarrow> entityMap d eid
           | q # qs \<Rightarrow> Some (pfile (last (q # qs)))))
   \<and> set (blockedActionPtrs (registerEntity f eid d)) \<subseteq> set (blockedActionPtrs d)
   \<and> set (blockedActions (registerEntity f eid d)) \<subseteq> set (blockedActions d)
   \<and> activeActions (registerEntity f eid d) = activeActions d
   \<and> (\<forall>q<nextPtr d. heap d q = None \<longrightarrow> heap (registerEntity f eid d) q = None)
   \<and> (\<forall>q<nextPtr d. \<forall>b. heap d q = Some b \<longrightarrow>
         (\<exists>b'. heap (registerEntity f eid d) q = Some b' \<and> state b' = state b
               \<and> provisions b' = provisions b \<and> outputs b' = outputs b))
   \<and> (\<forall>q\<in>set (pendingActions (registerEntity f eid d)).
         q \<in> set (pendingActions d) \<or> q \<in> set (blockedActionPtrs d) \<or> nextPtr d \<le> q)
   \<and> (let d1 = registerEntity f eid d; d2 = registerEntity f eid d1
       in d2 = fireTriggers eid f d1
          \<and> blockedActions d2 = blockedActions d1
          \<and> blockedActionPtrs d2 = blockedActionPtrs d1
          \<and> activeActions d2 = activeActions d1
          \<and> eventQueue d2 = eventQueue d1
          \<and> filePtrs d2 = filePtrs d1
          \<and> (\<forall>q<nextPtr d1. heap d2 q = heap d1 q)
          \<and> trace d2 = trace d1 @ replicate (length (triggered eid d)) (Trigger eid f)
          \<and> nextPtr d2 = nextPtr d1 + length (filter (makes eid f) (triggered eid d))
          \<and> pendingActions d2 = pendingActions d1 @ [nextPtr d1 ..< nextPtr d2]
          \<and> (\<forall>q. nextPtr d1 \<le> q \<and> q < nextPtr d2 \<longrightarrow>
                (\<exists>b. heap d2 q = Some b \<and> state b = PENDING)))"
proof -
  note e = registerEntity_entityMap
  note eff = registerEntity_effects [of f eid d]
  have 2: "state r = RUNNING \<longrightarrow>
        findOptionalProvider p r eid (registerEntity f eid d) = Inr (Some f, registerEntity f eid d)"
    by (simp add: findOptionalProvider_def ensureRunning_def e)
  have 5: "heap d this = Some a \<and> missingDependencies a = []
         \<and> (state a = SUCCEEDED \<or> state a = PASSED) \<longrightarrow>
        entityMap (returned this d) eid =
          (case filter (\<lambda>q. eid \<in> set (entities q)) (provisions a) of
             [] \<Rightarrow> entityMap d eid
           | q # qs \<Rightarrow> Some (pfile (last (q # qs))))"
    using returned_commit_entityMap [of d this a eid]
    by (simp add: registerProviders_entityMap_last)
  have 6: "set (blockedActionPtrs (registerEntity f eid d)) \<subseteq> set (blockedActionPtrs d)"
    using eff by auto
  have 7: "set (blockedActions (registerEntity f eid d)) \<subseteq> set (blockedActions d)"
    using eff by auto
  have 9: "\<forall>q<nextPtr d. heap d q = None \<longrightarrow> heap (registerEntity f eid d) q = None"
    using eff by simp
  have 10: "\<forall>q<nextPtr d. \<forall>b. heap d q = Some b \<longrightarrow>
         (\<exists>b'. heap (registerEntity f eid d) q = Some b' \<and> state b' = state b
               \<and> provisions b' = provisions b \<and> outputs b' = outputs b)"
    using eff by (simp add: eraseMissing_def)
  have 12: "let d1 = registerEntity f eid d; d2 = registerEntity f eid d1
       in d2 = fireTriggers eid f d1
          \<and> blockedActions d2 = blockedActions d1
          \<and> blockedActionPtrs d2 = blockedActionPtrs d1
          \<and> activeActions d2 = activeActions d1
          \<and> eventQueue d2 = eventQueue d1
          \<and> filePtrs d2 = filePtrs d1
          \<and> (\<forall>q<nextPtr d1. heap d2 q = heap d1 q)
          \<and> trace d2 = trace d1 @ replicate (length (triggered eid d)) (Trigger eid f)
          \<and> nextPtr d2 = nextPtr d1 + length (filter (makes eid f) (triggered eid d))
          \<and> pendingActions d2 = pendingActions d1 @ [nextPtr d1 ..< nextPtr d2]
          \<and> (\<forall>q. nextPtr d1 \<le> q \<and> q < nextPtr d2 \<longrightarrow>
                (\<exists>b. heap d2 q = Some b \<and> state b = PENDING))"
    unfolding Let_def registerEntity_repeated
    using fireTriggers_effects [of eid f "registerEntity f eid d"]
    unfolding triggered_registerEntity by blast
  from e 2 5 6 7 9 10 eff have old:
    "entityMap (registerEntity f eid d) = (entityMap d)(eid \<mapsto> f)
   \<and> (state r = RUNNING \<longrightarrow>
        findOptionalProvider p r eid (registerEntity f eid d) = Inr (Some f, registerEntity f eid d))
   \<and> entityMap (registerEntity f eid (registerEntity f eid d)) = entityMap (registerEntity f eid d)
   \<and> entityMap (registerEntity g eid (registerEntity f eid d)) = (entityMap d)(eid \<mapsto> g)
   \<and> (heap d this = Some a \<and> missingDependencies a = []
         \<and> (state a = SUCCEEDED \<or> state a = PASSED) \<longrightarrow>
        entityMap (returned this d) eid =
          (case filter (\<lambda>q. eid \<in> set (entities q)) (provisions a) of
             [] \<Rightarrow> entityMap d eid
           | q # qs \<Rightarrow> Some (pfile (last (q # qs)))))
   \<and> set (blockedActionPtrs (registerEntity f eid d)) \<subseteq> set (blockedActionPtrs d)
   \<and> set (blockedActions (registerEntity f eid d)) \<subseteq> set (blockedActions d)
   \<and> activeActions (registerEntity f eid d) = activeActions d
   \<and> (\<forall>q<nextPtr d. heap d q = None \<longrightarrow> heap (registerEntity f eid d) q = None)
   \<and> (\<forall>q<nextPtr d. \<forall>b. heap d q = Some b \<longrightarrow>
         (\<exists>b'. heap (registerEntity f eid d) q = Some b' \<and> state b' = state b
               \<and> provisions b' = provisions b \<and> outputs b' = outputs b))
   \<and> (\<forall>q\<in>set (pendingActions (registerEntity f eid d)).
         q \<in> set (pendingActions d) \<or> q \<in> set (blockedActionPtrs d) \<or> nextPtr d \<le> q)"
    by simp
  from old 12 show ?thesis by (elim conjE) (intro conjI; assumption)
qed

theorem publication_last_writer_wins_witness:
  "state (the (heap ex_done 3)) = RUNNING
   \<and> entityMap ex_done 2 = Some ex_lib
   \<and> findOptionalProvider 3 (the (heap ex_done 3)) 2 (registerEntity ex_obj 2 ex_done)
       = Inr (Some ex_obj, registerEntity ex_obj 2 ex_done)
   \<and> heap ex_ready 0 = Some (the (heap ex_ready 0))
   \<and> missingDependencies (the (heap ex_ready 0)) = []
   \<and> state (the (heap ex_ready 0)) = SUCCEEDED
   \<and> entityMap ex_ready 2 = None
   \<and> entityMap (returned 0 ex_ready) 2 = Some ex_lib
   \<and> (1::nat) < nextPtr ex_done \<and> heap ex_done 1 = None
   \<and> heap (registerEntity ex_obj 2 ex_done) 1 = None
   \<and> 1 \<notin> set (blockedActionPtrs (registerEntity ex_obj 2 ex_done))
   \<and> 1 \<notin> set (pendingActions (registerEntity ex_obj 2 ex_done))
   \<and> (3::nat) < nextPtr ex_done \<and> heap ex_done 3 = Some (the (heap ex_done 3))
   \<and> (\<exists>b'. heap (registerEntity ex_obj 2 ex_done) 3 = Some b' \<and> state b' = RUNNING)
   \<and> 4 \<in> set (pendingActions (registerEntity ex_obj 1 ex_done))
   \<and> nextPtr ex_done \<le> 4
   \<and> nextPtr (registerEntity ex_obj 1 ex_done) = 5
   \<and> length (triggered 1 ex_done) = 1
   \<and> length (filter (makes 1 ex_obj) (triggered 1 ex_done)) = 1
   \<and> trace (registerEntity ex_obj 1 (registerEntity ex_obj 1 ex_done))
       = trace (registerEntity ex_obj 1 ex_done) @ [Trigger 1 ex_obj]
   \<and> nextPtr (registerEntity ex_obj 1 (registerEntity ex_obj 1 ex_done)) = 6
   \<and> pendingActions (registerEntity ex_obj 1 (registerEntity ex_obj 1 ex_done))
       = pendingActions (registerEntity ex_obj 1 ex_done) @ [5]
   \<and> heap (registerEntity ex_obj 1 (registerEntity ex_obj 1 ex_done)) 3
       = heap (registerEntity ex_obj 1 ex_done) 3
   \<and> (\<exists>b. heap (registerEntity ex_obj 1 (registerEntity ex_obj 1 ex_done)) 5 = Some b
         \<and> state b = PENDING)"
proof -
  have r: "state (the (heap ex_done 3)) = RUNNING" by code_simp
  have e: "entityMap ex_done 2 = Some ex_lib" by code_simp
  have a: "heap ex_ready 0 = Some (the (heap ex_ready 0))" by code_simp
  have m: "missingDependencies (the (heap ex_ready 0)) = []" by code_simp
  have s: "state (the (heap ex_ready 0)) = SUCCEEDED" by code_simp
  have e0: "entityMap ex_ready 2 = None" by code_simp
  have pr: "provisions (the (heap ex_ready 0)) = [\<lparr>pfile = ex_lib, entities = [1, 2]\<rparr>]" by code_simp
  have n1: "(1::nat) < nextPtr ex_done" by code_simp
  have h1: "heap ex_done 1 = None" by code_simp
  have b1: "1 \<notin> set (blockedActionPtrs ex_done)" by code_simp
  have p1: "1 \<notin> set (pendingActions ex_done)" by code_simp
  have n3: "(3::nat) < nextPtr ex_done" by code_simp
  have h3: "heap ex_done 3 = Some (the (heap ex_done 3))" by code_simp
  have q4: "4 \<in> set (pendingActions (registerEntity ex_obj 1 ex_done))" by code_simp
  have q4': "4 \<notin> set (pendingActions ex_done)" "4 \<notin> set (blockedActionPtrs ex_done)" by code_simp+
  have n5: "nextPtr (registerEntity ex_obj 1 ex_done) = 5" by code_simp
  have l1: "length (triggered 1 ex_done) = 1" by code_simp
  have l2: "length (filter (makes 1 ex_obj) (triggered 1 ex_done)) = 1" by code_simp
  note t = publication_last_writer_wins [of ex_obj 2 ex_done "the (heap ex_done 3)" 3 ex_obj]
  note t0 = publication_last_writer_wins [of ex_obj 2 ex_ready _ _ _ 0 "the (heap ex_ready 0)"]
  note t1 = publication_last_writer_wins
    [of ex_obj 1 ex_done "the (heap ex_done 3)" 3 ex_obj 0 "the (heap ex_done 3)"]
  from t r have 1: "findOptionalProvider 3 (the (heap ex_done 3)) 2 (registerEntity ex_obj 2 ex_done)
       = Inr (Some ex_obj, registerEntity ex_obj 2 ex_done)" by blast
  from t0 a m s pr have 2: "entityMap (returned 0 ex_ready) 2 = Some ex_lib" by simp
  from t n1 h1 have 3: "heap (registerEntity ex_obj 2 ex_done) 1 = None" by blast
  from t b1 have 4: "1 \<notin> set (blockedActionPtrs (registerEntity ex_obj 2 ex_done))" by blast
  have 5: "1 \<notin> set (pendingActions (registerEntity ex_obj 2 ex_done))"
  proof
    assume mem: "1 \<in> set (pendingActions (registerEntity ex_obj 2 ex_done))"
    from t have "\<forall>q\<in>set (pendingActions (registerEntity ex_obj 2 ex_done)).
        q \<in> set (pendingActions ex_done) \<or> q \<in> set (blockedActionPtrs ex_done) \<or> nextPtr ex_done \<le> q"
      by blast
    from bspec [OF this mem] b1 p1 n1 show False by simp
  qed
  from t n3 h3 r have 6: "\<exists>b'. heap (registerEntity ex_obj 2 ex_done) 3 = Some b' \<and> state b' = RUNNING"
    by metis
  from t1 q4 q4' have 7: "nextPtr ex_done \<le> 4" by blast
  from t1 have rep: "let d1 = registerEntity ex_obj 1 ex_done; d2 = registerEntity ex_obj 1 d1
       in d2 = fireTriggers 1 ex_obj d1
          \<and> blockedActions d2 = blockedActions d1
          \<and> blockedActionPtrs d2 = blockedActionPtrs d1
          \<and> activeActions d2 = activeActions d1
          \<and> eventQueue d2 = eventQueue d1
          \<and> filePtrs d2 = filePtrs d1
          \<and> (\<forall>q<nextPtr d1. heap d2 q = heap d1 q)
          \<and> trace d2 = trace d1 @ replicate (length (triggered 1 ex_done)) (Trigger 1 ex_obj)
          \<and> nextPtr d2 = nextPtr d1 + length (filter (makes 1 ex_obj) (triggered 1 ex_done))
          \<and> pendingActions d2 = pendingActions d1 @ [nextPtr d1 ..< nextPtr d2]
          \<and> (\<forall>q. nextPtr d1 \<le> q \<and> q < nextPtr d2 \<longrightarrow>
                (\<exists>b. heap d2 q = Some b \<and> state b = PENDING))"
    by - (elim conjE, assumption)
  note rep' = rep [unfolded Let_def]
  from rep' have "trace (registerEntity ex_obj 1 (registerEntity ex_obj 1 ex_done))
       = trace (registerEntity ex_obj 1 ex_done)
           @ replicate (length (triggered 1 ex_done)) (Trigger 1 ex_obj)"
    by - (elim conjE, assumption)
  with l1 have 8: "trace (registerEntity ex_obj 1 (registerEntity ex_obj 1 ex_done))
       = trace (registerEntity ex_obj 1 ex_done) @ [Trigger 1 ex_obj]"
    by simp
  from rep' have "nextPtr (registerEntity ex_obj 1 (registerEntity ex_obj 1 ex_done))
       = nextPtr (registerEntity ex_obj 1 ex_done)
           + length (filter (makes 1 ex_obj) (triggered 1 ex_done))"
    by - (elim conjE, assumption)
  with l2 n5 have 9: "nextPtr (registerEntity ex_obj 1 (registerEntity ex_obj 1 ex_done)) = 6"
    by simp
  from rep' have "pendingActions (registerEntity ex_obj 1 (registerEntity ex_obj 1 ex_done))
       = pendingActions (registerEntity ex_obj 1 ex_done)
           @ [nextPtr (registerEntity ex_obj 1 ex_done)
                ..< nextPtr (registerEntity ex_obj 1 (registerEntity ex_obj 1 ex_done))]"
    by - (elim conjE, assumption)
  then have 10: "pendingActions (registerEntity ex_obj 1 (registerEntity ex_obj 1 ex_done))
       = pendingActions (registerEntity ex_obj 1 ex_done) @ [5]"
    unfolding 9 n5 by (simp add: upt_rec)
  from rep' have "\<forall>q<nextPtr (registerEntity ex_obj 1 ex_done).
       heap (registerEntity ex_obj 1 (registerEntity ex_obj 1 ex_done)) q
         = heap (registerEntity ex_obj 1 ex_done) q"
    by - (elim conjE, assumption)
  then have 11: "heap (registerEntity ex_obj 1 (registerEntity ex_obj 1 ex_done)) 3
       = heap (registerEntity ex_obj 1 ex_done) 3"
    unfolding n5 by simp
  from rep' have "\<forall>q. nextPtr (registerEntity ex_obj 1 ex_done) \<le> q
         \<and> q < nextPtr (registerEntity ex_obj 1 (registerEntity ex_obj 1 ex_done)) \<longrightarrow>
       (\<exists>b. heap (registerEntity ex_obj 1 (registerEntity ex_obj 1 ex_done)) q = Some b
           \<and> state b = PENDING)"
    by - (elim conjE, assumption)
  then have 12: "\<exists>b. heap (registerEntity ex_obj 1 (registerEntity ex_obj 1 ex_done)) 5 = Some b
         \<and> state b = PENDING"
    unfolding 9 n5 by simp
  from r e 1 a m s e0 2 n1 h1 3 4 5 n3 h3 6 q4 7 n5 l1 l2 8 9 10 11 12 show ?thesis by blast
qed

text \<open>
  A repeated publication is observable. In \<open>ex_done\<close> one factory is registered for entity
  1, and it makes a link action of any entity. Registering \<open>(1, ex_obj)\<close> queues driver 4;
  registering the same pair again leaves the provider of entity 1 as it is, fires the trigger
  once more and queues another link action, driver 5. The same is seen in whole runs: when
  driver 0 provides entity 1 with \<open>ex_lib\<close> once, its commit queues one link action and
  \<^verbatim>\<open>startSomeActions\<close> starts driver 2; when it provides the same entity with the same
  file twice, the commit queues two and drivers 3 and 2 are started.
\<close>

theorem publication_idempotent_counterexample:
  "entityMap (registerEntity ex_obj 1 ex_done) 1 = Some ex_obj
   \<and> entityMap (registerEntity ex_obj 1 (registerEntity ex_obj 1 ex_done)) 1 = Some ex_obj
   \<and> pendingActions (registerEntity ex_obj 1 ex_done) = [4]
   \<and> pendingActions (registerEntity ex_obj 1 (registerEntity ex_obj 1 ex_done)) = [4, 5]
   \<and> heap (registerEntity ex_obj 1 ex_done) 5 = None
   \<and> map_option action (heap (registerEntity ex_obj 1 (registerEntity ex_obj 1 ex_done)) 5)
       = Some (Action ''link'')
   \<and> trace (registerEntity ex_obj 1 (registerEntity ex_obj 1 ex_done))
       = trace (registerEntity ex_obj 1 ex_done) @ [Trigger 1 ex_obj]
   \<and> activeActions ex_published = [2]
   \<and> activeActions ex_published_twice = [3, 2]
   \<and> map_option action (heap ex_published 3) = None
   \<and> map_option action (heap ex_published_twice 3) = Some (Action ''link'')"
  by code_simp

end
